theory Spec2Isabelle
  imports Main "HOL-Library.Sublist"
begin

section \<open>The nanomatch parsers (lib/parsers.js)\<close>

text \<open>
  The file registers fourteen rules on a parser object. Each rule looks at the remaining
  input through one regular expression, may change the parser and its lexer state, and
  returns a node or nothing. The parser object is a record that every rule takes and
  returns; a JavaScript string is a \<open>string\<close>; a property that may be undefined is an
  option. Source positions (the closure returned by \<open>position()\<close>) are left out: no
  rule reads them.
\<close>

subsection \<open>Characters\<close>

abbreviation backslash :: char where "backslash \<equiv> CHR 0x5C"
abbreviation dquote :: char where "dquote \<equiv> CHR 0x22"
abbreviation squote :: char where "squote \<equiv> CHR 0x27"

text \<open>
  The atom \<open>.\<close> of a JavaScript regular expression without the \<open>s\<close> flag matches every
  character but a line terminator. Of the four line terminators, line feed and carriage
  return are characters of the type \<open>char\<close>.
\<close>

definition line_terminator :: "char \<Rightarrow> bool" where
  "line_terminator c = (c = CHR 0x0A \<or> c = CHR 0x0D)"

definition any_char :: "char \<Rightarrow> bool" where
  "any_char c = (\<not> line_terminator c)"

subsection \<open>Nodes, lexer state, parser\<close>

datatype node_type =
  ty_escape | ty_quoted | ty_not | ty_dot | ty_plus | ty_qmark | ty_globstar | ty_star
  | ty_slash | ty_backslash | ty_square | ty_bracket | ty_text

text \<open>A node object: \<open>type\<close> and \<open>val\<close>, and the properties that only some rules set.\<close>

record node =
  ntype :: node_type
  val :: string
  nparsed :: "string option"
  dotfiles :: "bool option"
  isInside :: "(bool \<times> bool) option"
  escaped :: "bool option"
  negated :: "string option"
  inner :: "string option"
  close :: "string option"
  rest :: "string option"

definition mk_node :: "node_type \<Rightarrow> string \<Rightarrow> node" where
  "mk_node t v = \<lparr>ntype = t, val = v, nparsed = None, dotfiles = None, isInside = None,
     escaped = None, negated = None, inner = None, close = None, rest = None\<rparr>"

text \<open>\<open>parser.state\<close>: created as \<open>{slashes: 0, paths: []}\<close>, every flag undefined.\<close>

record lexer_state =
  slashes :: nat
  paths :: "string list"
  strictOpen :: "bool option"
  addPrefix :: "bool option"
  dot :: "bool option"
  metachar :: "bool option"
  qmark :: "bool option"
  globstar :: "bool option"
  star :: "bool option"

record options =
  opt_strictOpen :: bool
  opt_nonegate :: bool
  opt_noglobstar :: bool

datatype set_type = bracket | brace | paren

record parser =
  opts :: options
  input :: string
  parsed :: string
  state :: lexer_state
  bos_val :: "string option"
  append_val :: "string option"
  sets :: "set_type \<Rightarrow> nat"
  nodes :: "node list"

datatype error = NoParser string | AssignToConstant

subsection \<open>The scan cursor\<close>

text \<open>
  Modelled from the spec: the methods \<open>match\<close>, \<open>consume\<close> and \<open>isInside\<close> of the
  parser object belong to the parser library, which is not part of this repository's
  sources (spec section 4.2, and the structural-context flags of section 2).
  \<open>this.match(re)\<close> runs the expression on the remaining input and, when it matches,
  appends the matched text to \<open>parsed\<close> and removes it from the input, for every rule
  that calls it; \<open>this.consume(n)\<close> only removes; \<open>this.isInside(t)\<close> says whether a
  set of type \<open>t\<close> is open. None of the rules below opens a set.
\<close>

definition consume :: "nat \<Rightarrow> parser \<Rightarrow> parser" where
  "consume n p = p\<lparr>input := drop n (input p)\<rparr>"

definition updatePosition :: "string \<Rightarrow> parser \<Rightarrow> parser" where
  "updatePosition m0 p = consume (length m0) (p\<lparr>parsed := parsed p @ m0\<rparr>)"

definition is_inside :: "parser \<Rightarrow> set_type \<Rightarrow> bool" where
  "is_inside p t = (0 < sets p t)"

subsection \<open>Building blocks of the regular expressions\<close>

text \<open>\<open>starts_with w s\<close>: the literal \<open>w\<close> matches at the start of \<open>s\<close>.\<close>

definition starts_with :: "string \<Rightarrow> string \<Rightarrow> bool" where
  "starts_with w s = (take (length w) s = w)"

text \<open>A look-ahead for one character of a class: false at the end of the input.\<close>

definition ahead_in :: "string \<Rightarrow> string \<Rightarrow> bool" where
  "ahead_in cls s = (case s of [] \<Rightarrow> False | c # _ \<Rightarrow> c \<in> set cls)"

text \<open>The atom \<open>.\<close>, as a match of one character or as a look-ahead.\<close>

definition ahead_any :: "string \<Rightarrow> bool" where
  "ahead_any s = (case s of [] \<Rightarrow> False | c # _ \<Rightarrow> any_char c)"

text \<open>The length of the longest run of characters of a class at the start.\<close>

definition run :: "(char \<Rightarrow> bool) \<Rightarrow> string \<Rightarrow> nat" where
  "run P s = length (takeWhile P s)"

text \<open>
  A greedy quantifier followed by the rest \<open>ok\<close> of its pattern: it first takes \<open>k\<close>
  characters and gives them back one at a time, not below \<open>lo\<close>, until \<open>ok\<close> accepts
  what follows.
\<close>

fun backtrack :: "nat \<Rightarrow> nat \<Rightarrow> (string \<Rightarrow> bool) \<Rightarrow> string \<Rightarrow> nat option" where
  "backtrack lo 0 ok s = (if lo = 0 \<and> ok s then Some 0 else None)"
| "backtrack lo (Suc k) ok s =
     (if Suc k < lo then None
      else if ok (drop (Suc k) s) then Some (Suc k)
      else backtrack lo k ok s)"

text \<open>\<open>a || b\<close> on strings that may be undefined: the empty string is false.\<close>

definition truthy :: "string option \<Rightarrow> bool" where
  "truthy a = (a \<noteq> None \<and> a \<noteq> Some [])"

definition str_or :: "string option \<Rightarrow> string \<Rightarrow> string" where
  "str_or a b = (if truthy a then the a else b)"

subsection \<open>The regular expressions, one function each\<close>

text \<open>\<^verbatim>\<open>/^\.[\\/]/\<close>\<close>

fun re_prefix :: "string \<Rightarrow> string option" where
  "re_prefix (c # d # s) =
     (if c = CHR ''.'' \<and> (d = backslash \<or> d = CHR ''/'') then Some [c, d] else None)"
| "re_prefix s = None"

text \<open>\<^verbatim>\<open>/^(?:\\(.)|([$^]))/\<close>: the match, group 1, group 2.\<close>

definition re_escape :: "string \<Rightarrow> (string \<times> string option \<times> string option) option" where
  "re_escape s =
     (if starts_with [backslash] s \<and> ahead_any (drop 1 s)
      then Some (take 2 s, Some (take 1 (drop 1 s)), None)
      else if ahead_in ''$^'' s then Some (take 1 s, None, Some (take 1 s))
      else None)"

text \<open>\<^verbatim>\<open>/^["']/\<close>: the match is one character, returned as such.\<close>

definition re_quote :: "string \<Rightarrow> char option" where
  "re_quote s = (case s of [] \<Rightarrow> None
     | c # _ \<Rightarrow> if c = dquote \<or> c = squote then Some c else None)"

text \<open>\<^verbatim>\<open>/^!+/\<close> (\<open>this.notRegex\<close> is not set by this file)\<close>

definition re_not :: "string \<Rightarrow> string option" where
  "re_not s = (let n = run (\<lambda>c. c = CHR ''!'') s in if 1 \<le> n then Some (take n s) else None)"

text \<open>\<^verbatim>\<open>/^\.+/\<close>\<close>

definition re_dot :: "string \<Rightarrow> string option" where
  "re_dot s = (let n = run (\<lambda>c. c = CHR ''.'') s in if 1 \<le> n then Some (take n s) else None)"

text \<open>\<^verbatim>\<open>/^\+(?!\()/\<close>\<close>

definition re_plus :: "string \<Rightarrow> string option" where
  "re_plus s = (if starts_with ''+'' s \<and> \<not> ahead_in ''('' (drop 1 s) then Some ''+'' else None)"

text \<open>\<^verbatim>\<open>/^\?+(?!\()/\<close>\<close>

definition re_qmark :: "string \<Rightarrow> string option" where
  "re_qmark s =
     map_option (\<lambda>k. take k s)
       (backtrack 1 (run (\<lambda>c. c = CHR ''?'') s) (\<lambda>r. \<not> ahead_in ''('' r) s)"

text \<open>\<^verbatim>\<open>/^\*{2}(?![*(])(?=[,)/]|$)/\<close>\<close>

definition re_globstar :: "string \<Rightarrow> string option" where
  "re_globstar s =
     (if starts_with ''**'' s \<and> \<not> ahead_in ''*('' (drop 2 s)
         \<and> (ahead_in '',)/'' (drop 2 s) \<or> drop 2 s = [])
      then Some ''**'' else None)"

text \<open>\<^verbatim>\<open>/^(?:\*(?![*(])|[*]{3,}(?!\()|[*]{2}(?![(/]|$)|\*(?=\*\())/\<close>: four alternatives, in order.\<close>

definition re_star :: "string \<Rightarrow> string option" where
  "re_star s =
     (if starts_with ''*'' s \<and> \<not> ahead_in ''*('' (drop 1 s) then Some ''*''
      else case backtrack 3 (run (\<lambda>c. c = CHR ''*'') s) (\<lambda>r. \<not> ahead_in ''('' r) s of
        Some k \<Rightarrow> Some (take k s)
      | None \<Rightarrow>
          if starts_with ''**'' s \<and> \<not> (ahead_in ''(/'' (drop 2 s) \<or> drop 2 s = []) then Some ''**''
          else if starts_with ''*'' s \<and> starts_with ''*('' (drop 1 s) then Some ''*''
          else None)"

text \<open>\<^verbatim>\<open>/^\//\<close>\<close>

definition re_slash :: "string \<Rightarrow> string option" where
  "re_slash s = (if starts_with ''/'' s then Some ''/'' else None)"

text \<open>\<^verbatim>\<open>/^\\(?![*+?(){}[\]'"])/\<close>\<close>

definition re_backslash :: "string \<Rightarrow> string option" where
  "re_backslash s =
     (if starts_with [backslash] s \<and> \<not> ahead_in (''*+?(){}[]'' @ [squote, dquote]) (drop 1 s)
      then Some [backslash] else None)"

text \<open>\<^verbatim>\<open>/^\[([^!^\\])\]/\<close>: the match and group 1.\<close>

fun re_square :: "string \<Rightarrow> (string \<times> string) option" where
  "re_square (a # c # b # s) =
     (if a = CHR ''['' \<and> c \<notin> set (''!^'' @ [backslash]) \<and> b = CHR '']''
      then Some ([a, c, b], [c]) else None)"
| "re_square s = None"

text \<open>
  \<^verbatim>\<open>/^(?:\[([!^]?)([^\]]+|\]-)(\]|[^*+?]+)|\[)/\<close>. Group 3 ends the first alternative:
  a \<open>]\<close>, or else the longest run of characters other than \<open>*+?\<close>. Group 2 is first
  the longest run of characters other than \<open>]\<close>, given back one character at a time
  until group 3 matches, and then the two characters \<open>]-\<close>. Group 1 takes a \<open>!\<close> or
  \<open>^\<close> when there is one, and is empty when the rest fails after that. The second
  alternative is the \<open>[\<close> alone, with no group set.
\<close>

definition bracket_g3 :: "string \<Rightarrow> string option" where
  "bracket_g3 s =
     (if starts_with '']'' s then Some '']''
      else let t = takeWhile (\<lambda>c. c \<notin> set ''*+?'') s in if t \<noteq> [] then Some t else None)"

fun bracket_g2_run :: "nat \<Rightarrow> string \<Rightarrow> (string \<times> string) option" where
  "bracket_g2_run 0 s = None"
| "bracket_g2_run (Suc k) s =
     (case bracket_g3 (drop (Suc k) s) of
        Some g3 \<Rightarrow> Some (take (Suc k) s, g3)
      | None \<Rightarrow> bracket_g2_run k s)"

definition bracket_g2 :: "string \<Rightarrow> (string \<times> string) option" where
  "bracket_g2 s =
     (case bracket_g2_run (run (\<lambda>c. c \<noteq> CHR '']'') s) s of
        Some r \<Rightarrow> Some r
      | None \<Rightarrow>
          if starts_with '']-'' s
          then map_option (\<lambda>g3. ('']-'', g3)) (bracket_g3 (drop 2 s))
          else None)"

definition bracket_g1 :: "string \<Rightarrow> (string \<times> string \<times> string) option" where
  "bracket_g1 s =
     (case (if ahead_in ''!^'' s then map_option (\<lambda>(g2, g3). (take 1 s, g2, g3)) (bracket_g2 (drop 1 s))
            else None) of
        Some r \<Rightarrow> Some r
      | None \<Rightarrow> map_option (\<lambda>(g2, g3). ([], g2, g3)) (bracket_g2 s))"

definition re_bracket ::
    "string \<Rightarrow> (string \<times> string option \<times> string option \<times> string option) option" where
  "re_bracket s =
     (if starts_with ''['' s
      then (case bracket_g1 (drop 1 s) of
              Some (g1, g2, g3) \<Rightarrow> Some (''['' @ g1 @ g2 @ g3, Some g1, Some g2, Some g3)
            | None \<Rightarrow> Some (''['', None, None, None))
      else None)"

text \<open>
  The text expression. \<open>createTextRegex\<close> joins \<^verbatim>\<open>^(?:[*]\((?=.)|\<close> with the expression
  that \<open>regexNot.create\<close> returns for \<open>NOT_REGEX\<close>, and wraps the result with \<open>toRegex\<close>.
\<close>

text \<open>\<open>NOT_REGEX\<close> is \<^verbatim>\<open>[\[!*+?$^"'.\\/]+\<close>\<close>

definition NOT_REGEX :: string where
  "NOT_REGEX = ''[!*+?$^'' @ [dquote, squote] @ ''.'' @ [backslash] @ ''/''"

text \<open>
  Modelled from the spec: the expression built by the packages regex-not and to-regex,
  which are not part of this repository's sources. With the options \<open>contains\<close> and
  \<open>strictClose: false\<close> it is \<^verbatim>\<open>^(?:(?!(?:[\[!*+?$^"'.\\/]+)).)+\<close>: the longest run,
  not empty, of characters that are matched by \<open>.\<close> and do not start a run of
  \<open>NOT_REGEX\<close> characters (the spec's "run of plain text characters").
\<close>

definition regex_not :: "string \<Rightarrow> string option" where
  "regex_not s =
     (let t = takeWhile (\<lambda>c. c \<notin> set NOT_REGEX \<and> any_char c) s
      in if t \<noteq> [] then Some t else None)"

definition re_text :: "string \<Rightarrow> string option" where
  "re_text s =
     (if starts_with ''*('' s \<and> ahead_any (drop 2 s)
      then Some ''*(''
      else regex_not s)"

subsection \<open>advanceTo\<close>

text \<open>
  \<open>advanceTo(input, endChar)\<close> keeps a current character \<open>ch\<close> (the empty string past
  the end, here \<open>None\<close>), an index and the token \<open>{len, val, esc}\<close>.
\<close>

record scan =
  ch :: "char option"
  idx :: nat
  tok_len :: nat
  tok_val :: string
  tok_esc :: string

definition charAt :: "string \<Rightarrow> nat \<Rightarrow> char option" where
  "charAt s i = (if i < length s then Some (s ! i) else None)"

text \<open>\<open>'\\' + ch\<close> and \<open>val += ch\<close>, where \<open>ch\<close> may be the empty string.\<close>

definition ch_str :: "char option \<Rightarrow> string" where
  "ch_str c = (case c of None \<Rightarrow> [] | Some x \<Rightarrow> [x])"

text \<open>
  The inner function \<open>advance\<close>: its statements before the test of the next character
  are \<open>advance_body\<close>. When the next character is a backslash it calls itself twice,
  and does nothing after these calls. \<open>advance_n k\<close> is \<open>k\<close> calls of \<open>advance\<close>
  in a row: the body of the first, followed by the two calls it makes (when it makes
  them) and then by the \<open>k - 1\<close> calls that were left.
\<close>

definition advance_body :: "string \<Rightarrow> scan \<Rightarrow> scan" where
  "advance_body inp sc =
     (let sc1 = (if ch sc \<noteq> Some backslash
                 then sc\<lparr>tok_esc := tok_esc sc @ backslash # ch_str (ch sc),
                         tok_val := tok_val sc @ ch_str (ch sc)\<rparr>
                 else sc)
      in sc1\<lparr>ch := charAt inp (Suc (idx sc1)), idx := Suc (idx sc1),
              tok_len := Suc (tok_len sc1)\<rparr>)"

lemma advance_body_idx [simp]: "idx (advance_body inp sc) = Suc (idx sc)"
  by (simp add: advance_body_def)

lemma advance_body_ch [simp]: "ch (advance_body inp sc) = charAt inp (Suc (idx sc))"
  by (simp add: advance_body_def)

function advance_n :: "string \<Rightarrow> nat \<Rightarrow> scan \<Rightarrow> scan" where
  "advance_n inp 0 sc = sc"
| "advance_n inp (Suc k) sc =
     (if ch (advance_body inp sc) = Some backslash
      then advance_n inp (Suc (Suc k)) (advance_body inp sc)
      else advance_n inp k (advance_body inp sc))"
  by pat_completeness auto
termination
  by (relation "measures [\<lambda>(inp, k, sc). length inp - idx sc, \<lambda>(inp, k, sc). k]")
     (auto simp: charAt_def split: if_splits)

declare advance_n.simps(2) [simp del]

lemma advance_n_idx: "idx sc + k \<le> idx (advance_n inp k sc)"
proof (induction inp k sc rule: advance_n.induct)
  case (1 inp sc)
  then show ?case by simp
next
  case (2 inp k sc)
  then show ?case
    by (subst advance_n.simps(2)) (auto split: if_splits)
qed

lemma advance_n_sync:
  "0 < k \<Longrightarrow> ch (advance_n inp k sc) = charAt inp (idx (advance_n inp k sc))"
proof (induction inp k sc rule: advance_n.induct)
  case (1 inp sc)
  then show ?case by simp
next
  case (2 inp k sc)
  show ?case
  proof (cases "ch (advance_body inp sc) = Some backslash")
    case True
    with 2 show ?thesis by (simp add: advance_n.simps(2))
  next
    case False
    show ?thesis
    proof (cases k)
      case 0
      with False show ?thesis by (simp add: advance_n.simps(2))
    next
      case (Suc j)
      with False 2 show ?thesis by (simp add: advance_n.simps(2))
    qed
  qed
qed

text \<open>\<open>while (ch && ch !== endChar) advance();\<close>\<close>

function advanceTo_loop :: "string \<Rightarrow> char \<Rightarrow> scan \<Rightarrow> scan" where
  "advanceTo_loop inp endChar sc =
     (if ch sc \<noteq> None \<and> ch sc \<noteq> Some endChar
      then advanceTo_loop inp endChar (advance_n inp 1 sc)
      else sc)"
  by pat_completeness auto
termination
proof (relation "measure (\<lambda>(inp, e, sc). (length inp - idx sc) + (if ch sc = None then 0 else 1))")
  show "wf (measure (\<lambda>(inp, e, sc). (length inp - idx sc) + (if ch sc = None then 0 else 1)))"
    by simp
next
  fix inp :: string and endChar :: char and sc :: scan
  assume "ch sc \<noteq> None \<and> ch sc \<noteq> Some endChar"
  moreover have "idx sc + 1 \<le> idx (advance_n inp 1 sc)"
    by (rule advance_n_idx)
  moreover have "ch (advance_n inp 1 sc) = charAt inp (idx (advance_n inp 1 sc))"
    by (rule advance_n_sync) simp
  ultimately show "((inp, endChar, advance_n inp 1 sc), (inp, endChar, sc))
      \<in> measure (\<lambda>(inp, e, sc). (length inp - idx sc) + (if ch sc = None then 0 else 1))"
    by (auto simp: charAt_def split: if_splits)
qed

declare advanceTo_loop.simps [simp del]

definition advanceTo :: "string \<Rightarrow> char \<Rightarrow> scan" where
  "advanceTo inp endChar =
     advanceTo_loop inp endChar
       \<lparr>ch = charAt inp 0, idx = 0, tok_len = 1, tok_val = [], tok_esc = []\<rparr>"

subsection \<open>The rules\<close>

text \<open>A rule returns the node, if any, and the parser as it leaves it.\<close>

type_synonym rule = "parser \<Rightarrow> node option \<times> parser"

definition prefix_rule :: rule where
  "prefix_rule p =
     (if parsed p \<noteq> [] then (None, p)
      else case re_prefix (input p) of
        None \<Rightarrow> (None, p)
      | Some m0 \<Rightarrow>
          (let p1 = updatePosition m0 p
           in (None, p1\<lparr>state := (state p1)\<lparr>strictOpen := Some (opt_strictOpen (opts p1)),
                                               addPrefix := Some True\<rparr>\<rparr>)))"

definition escape_rule :: rule where
  "escape_rule p =
     (if is_inside p bracket then (None, p)
      else case re_escape (input p) of
        None \<Rightarrow> (None, p)
      | Some (m0, m1, m2) \<Rightarrow>
          (Some (mk_node ty_escape (str_or m2 (str_or m1 []))), updatePosition m0 p))"

definition quoted_rule :: rule where
  "quoted_rule p =
     (case re_quote (input p) of
        None \<Rightarrow> (None, p)
      | Some quote \<Rightarrow>
          (let p1 = updatePosition [quote] p
           in if quote \<notin> set (input p1)
              then (Some (mk_node ty_escape [quote]), p1)
              else (let tok = advanceTo (input p1) quote;
                        p2 = consume (tok_len tok) p1
                    in (Some (mk_node ty_quoted (tok_esc tok)), p2))))"

definition not_rule :: rule where
  "not_rule p =
     (case re_not (input p) of
        None \<Rightarrow> (None, p)
      | Some m0 \<Rightarrow>
          (let p1 = updatePosition m0 p;
               isNegated = (length m0 mod 2 = 1);
               val1 = (if parsed p = [] \<and> \<not> isNegated then [] else m0)
           in if parsed p = [] \<and> isNegated \<and> \<not> opt_nonegate (opts p1)
              then (Some (mk_node ty_not []),
                    p1\<lparr>bos_val := Some ''(?!^(?:'', append_val := Some '')$).*''\<rparr>)
              else (Some (mk_node ty_not val1), p1)))"

definition dot_rule :: rule where
  "dot_rule p =
     (case re_dot (input p) of
        None \<Rightarrow> (None, p)
      | Some m0 \<Rightarrow>
          (let p1 = updatePosition m0 p;
               d = (m0 = ''.'' \<and> (parsed p = [] \<or> last (parsed p) = CHR ''/''))
           in (Some ((mk_node ty_dot m0)\<lparr>dotfiles := Some d\<rparr>),
               p1\<lparr>state := (state p1)\<lparr>dot := Some d\<rparr>\<rparr>)))"

text \<open>
  Modelled from the spec: \<open>.capture('plus', re)\<close> is a method of the parser library,
  which is not part of this repository's sources. By the spec the rule yields a
  \<open>Plus\<close> node verbatim; the node keeps the text parsed before it and the input left
  after it.
\<close>

definition plus_rule :: rule where
  "plus_rule p =
     (case re_plus (input p) of
        None \<Rightarrow> (None, p)
      | Some m0 \<Rightarrow>
          (let p1 = updatePosition m0 p
           in (Some ((mk_node ty_plus m0)\<lparr>nparsed := Some (parsed p), rest := Some (input p1)\<rparr>),
               p1)))"

definition qmark_rule :: rule where
  "qmark_rule p =
     (case re_qmark (input p) of
        None \<Rightarrow> (None, p)
      | Some m0 \<Rightarrow>
          (let p1 = updatePosition m0 p
           in (Some ((mk_node ty_qmark m0)\<lparr>nparsed := Some (parsed p)\<rparr>),
               p1\<lparr>state := (state p1)\<lparr>metachar := Some True, qmark := Some True\<rparr>\<rparr>)))"

text \<open>\<open>while (this.input.slice(0, 4) === '/**/') this.input = this.input.slice(3);\<close>\<close>

function fold_globstars :: "string \<Rightarrow> string" where
  "fold_globstars s = (if take 4 s = ''/**/'' then fold_globstars (drop 3 s) else s)"
  by pat_completeness auto
termination
proof (relation "measure length")
  show "wf (measure (length :: string \<Rightarrow> nat))"
    by simp
next
  fix s :: string
  assume "take 4 s = ''/**/''"
  then have "s \<noteq> []"
    by auto
  then show "(drop 3 s, s) \<in> measure length"
    by simp
qed

declare fold_globstars.simps [simp del]

definition globstar_rule :: rule where
  "globstar_rule p =
     (case re_globstar (input p) of
        None \<Rightarrow> (None, p)
      | Some m0 \<Rightarrow>
          (let p1 = updatePosition m0 p;
               type = (if \<not> opt_noglobstar (opts p1) then ty_globstar else ty_star);
               p2 = p1\<lparr>state := (state p1)\<lparr>metachar := Some True\<rparr>\<rparr>;
               p3 = p2\<lparr>input := fold_globstars (input p2)\<rparr>;
               inside = (is_inside p3 brace, is_inside p3 paren)
           in if type = ty_globstar
              then (Some ((mk_node type ''**'')\<lparr>nparsed := Some (parsed p), isInside := Some inside\<rparr>),
                    p3\<lparr>state := (state p3)\<lparr>globstar := Some True\<rparr>\<rparr>)
              else (Some ((mk_node type ''*'')\<lparr>nparsed := Some (parsed p), isInside := Some inside\<rparr>),
                    p3\<lparr>state := (state p3)\<lparr>star := Some True\<rparr>\<rparr>)))"

definition star_rule :: rule where
  "star_rule p =
     (case re_star (input p) of
        None \<Rightarrow> (None, p)
      | Some m0 \<Rightarrow>
          (let p1 = updatePosition m0 p
           in (Some (mk_node ty_star m0),
               p1\<lparr>state := (state p1)\<lparr>metachar := Some True, star := Some True\<rparr>\<rparr>)))"

definition slash_rule :: rule where
  "slash_rule p =
     (case re_slash (input p) of
        None \<Rightarrow> (None, p)
      | Some m0 \<Rightarrow>
          (let p1 = updatePosition m0 p
           in (Some (mk_node ty_slash m0),
               p1\<lparr>state := (state p1)\<lparr>slashes := Suc (slashes (state p1))\<rparr>\<rparr>)))"

definition backslash_rule :: rule where
  "backslash_rule p =
     (case re_backslash (input p) of
        None \<Rightarrow> (None, p)
      | Some m0 \<Rightarrow>
          (let p1 = updatePosition m0 p;
               val1 = (if is_inside p1 bracket then [backslash]
                       else if 1 < length m0 then [backslash, backslash]
                       else m0)
           in (Some (mk_node ty_backslash val1), p1)))"

definition square_rule :: rule where
  "square_rule p =
     (if is_inside p bracket then (None, p)
      else case re_square (input p) of
        None \<Rightarrow> (None, p)
      | Some (m0, m1) \<Rightarrow> (Some (mk_node ty_square m1), updatePosition m0 p))"

text \<open>
  \<open>s.replace(/\\\\+/, '\\\\')\<close>: the first run of two or more backslashes becomes two
  backslashes.
\<close>

fun replace_bs :: "string \<Rightarrow> string" where
  "replace_bs (c # d # s) =
     (if c = backslash \<and> d = backslash
      then backslash # backslash # dropWhile (\<lambda>x. x = backslash) s
      else c # replace_bs (d # s))"
| "replace_bs s = s"

text \<open>
  The loop of the bracket rule over \<open>str = this.input\<close>. \<open>close\<close> is declared with
  \<open>const\<close>, so the assignment \<open>close = ch\<close> throws a TypeError when it is reached.
\<close>

fun bracket_scan :: "string \<Rightarrow> string \<Rightarrow> parser \<Rightarrow> error + string \<times> parser" where
  "bracket_scan [] inner1 p = Inr (inner1, p)"
| "bracket_scan (c # str) inner1 p =
     (let p1 = consume 1 p
      in if c = CHR '']'' then Inl AssignToConstant
         else bracket_scan str (inner1 @ [c]) p1)"

definition bracket_node :: "string \<Rightarrow> string \<Rightarrow> string \<Rightarrow> string \<Rightarrow> node" where
  "bracket_node val1 negated1 inner1 close1 =
     (mk_node ty_bracket val1)\<lparr>escaped := Some (close1 \<noteq> '']''), negated := Some negated1,
        inner := Some inner1, close := Some close1\<rparr>"

definition bracket_rule :: "parser \<Rightarrow> error + node option \<times> parser" where
  "bracket_rule p =
     (case re_bracket (input p) of
        None \<Rightarrow> Inr (None, p)
      | Some (m0, m1, m2, m3) \<Rightarrow>
          (let p1 = updatePosition m0 p;
               negated1 = (if truthy m1 then ''^'' else []);
               inner1 = replace_bs (str_or m2 []);
               close1 = str_or m3 [];
               val1 = (if truthy m2 \<and> length inner1 < length (str_or m2 [])
                       then replace_bs m0 else m0);
               esc = take 2 (input p1)
           in if inner1 = [] \<and> esc = [backslash, CHR '']'']
              then (case bracket_scan (input (consume 2 p1)) (inner1 @ esc) (consume 2 p1) of
                      Inl e \<Rightarrow> Inl e
                    | Inr (inner2, p2) \<Rightarrow>
                        Inr (Some (bracket_node val1 negated1 inner2 close1), p2))
              else Inr (Some (bracket_node val1 negated1 inner1 close1), p1)))"

definition text_rule :: rule where
  "text_rule p =
     (if is_inside p bracket then (None, p)
      else case re_text (input p) of
        None \<Rightarrow> (None, p)
      | Some m0 \<Rightarrow>
          (let p1 = updatePosition m0 p
           in if m0 = [] then (None, p1) else (Some (mk_node ty_text m0), p1)))"

subsection \<open>The rule set\<close>

text \<open>
  The rules in the order in which the file registers them. Of the rules only the
  bracket rule can raise an error; \<open>lift\<close> gives the others its type. (The hook
  \<open>options.parsers\<close>, by which a caller registers rules of its own, is not modelled.)
\<close>

type_synonym rule_e = "parser \<Rightarrow> error + node option \<times> parser"

definition lift :: "rule \<Rightarrow> rule_e" where
  "lift r p = Inr (r p)"

definition rules :: "rule_e list" where
  "rules = [lift prefix_rule, lift escape_rule, lift quoted_rule, lift not_rule,
     lift dot_rule, lift plus_rule, lift qmark_rule, lift globstar_rule, lift star_rule,
     lift slash_rule, lift backslash_rule, lift square_rule, bracket_rule, lift text_rule]"

text \<open>
  Modelled from the spec: one query of the rule set is made by the parser library, which
  is not part of this repository's sources. By the spec (sections 2 and 4.1) the rules
  are tried in their fixed order at the current cursor position until one yields a
  node; a rule that yields none hands the parser on as it leaves it.
\<close>

fun run_rules :: "rule_e list \<Rightarrow> rule_e" where
  "run_rules [] p = Inr (None, p)"
| "run_rules (r # rs) p =
     (case r p of
        Inl e \<Rightarrow> Inl e
      | Inr (Some n, p1) \<Rightarrow> Inr (Some n, p1)
      | Inr (None, p1) \<Rightarrow> run_rules rs p1)"

subsection \<open>Every rule leaves a suffix of the input\<close>

lemma input_updatePosition [simp]: "input (updatePosition m p) = drop (length m) (input p)"
  by (simp add: updatePosition_def consume_def)

lemma input_consume [simp]: "input (consume n p) = drop n (input p)"
  by (simp add: consume_def)

lemma suffix_drop2: "suffix (drop a (drop b s)) s"
  by (metis suffix_drop drop_drop)

lemma fold_globstars_suffix: "suffix (fold_globstars s) s"
proof (induction s rule: fold_globstars.induct)
  case (1 s)
  show ?case
  proof (cases "take 4 s = ''/**/''")
    case True
    then have "suffix (fold_globstars (drop 3 s)) (drop 3 s)" by (rule 1)
    then have "suffix (fold_globstars (drop 3 s)) s"
      using suffix_drop suffix_order.trans by blast
    with True show ?thesis by (subst fold_globstars.simps) simp
  next
    case False
    then show ?thesis by (subst fold_globstars.simps) simp
  qed
qed

lemma bracket_scan_suffix:
  "bracket_scan str i p = Inr (i', p') \<Longrightarrow> suffix (input p') (input p)"
proof (induction str arbitrary: i p)
  case Nil
  then show ?case by simp
next
  case (Cons c str)
  from Cons.prems have "bracket_scan str (i @ [c]) (consume 1 p) = Inr (i', p')"
    by (simp add: Let_def split: if_splits)
  then have "suffix (input p') (input (consume 1 p))" by (rule Cons.IH)
  then show ?case
    using suffix_drop suffix_order.trans by (fastforce)
qed

definition shrinks :: "rule_e \<Rightarrow> bool" where
  "shrinks r = (\<forall>p x p'. r p = Inr (x, p') \<longrightarrow> suffix (input p') (input p))"

lemma shrinks_prefix: "shrinks (lift prefix_rule)"
  by (auto simp: shrinks_def lift_def prefix_rule_def Let_def suffix_drop split: if_splits option.splits)
lemma shrinks_escape: "shrinks (lift escape_rule)"
  by (auto simp: shrinks_def lift_def escape_rule_def Let_def suffix_drop split: if_splits option.splits)
lemma shrinks_quoted: "shrinks (lift quoted_rule)"
  by (auto simp: shrinks_def lift_def quoted_rule_def Let_def suffix_drop suffix_drop2 split: if_splits option.splits)
lemma shrinks_not: "shrinks (lift not_rule)"
  by (auto simp: shrinks_def lift_def not_rule_def Let_def suffix_drop split: if_splits option.splits)
lemma shrinks_dot: "shrinks (lift dot_rule)"
  by (auto simp: shrinks_def lift_def dot_rule_def Let_def suffix_drop split: if_splits option.splits)
lemma shrinks_plus: "shrinks (lift plus_rule)"
  by (auto simp: shrinks_def lift_def plus_rule_def Let_def suffix_drop split: if_splits option.splits)
lemma shrinks_qmark: "shrinks (lift qmark_rule)"
  by (auto simp: shrinks_def lift_def qmark_rule_def Let_def suffix_drop split: if_splits option.splits)
lemma shrinks_globstar: "shrinks (lift globstar_rule)"
  using fold_globstars_suffix suffix_drop suffix_order.trans
  by (fastforce simp: shrinks_def lift_def globstar_rule_def Let_def split: if_splits option.splits)
lemma shrinks_star: "shrinks (lift star_rule)"
  by (auto simp: shrinks_def lift_def star_rule_def Let_def suffix_drop split: if_splits option.splits)
lemma shrinks_slash: "shrinks (lift slash_rule)"
  by (auto simp: shrinks_def lift_def slash_rule_def Let_def suffix_drop split: if_splits option.splits)
lemma shrinks_backslash: "shrinks (lift backslash_rule)"
  by (auto simp: shrinks_def lift_def backslash_rule_def Let_def suffix_drop split: if_splits option.splits)
lemma shrinks_square: "shrinks (lift square_rule)"
  by (auto simp: shrinks_def lift_def square_rule_def Let_def suffix_drop split: if_splits option.splits)
lemma shrinks_text: "shrinks (lift text_rule)"
  by (auto simp: shrinks_def lift_def text_rule_def Let_def suffix_drop split: if_splits option.splits)

lemma shrinks_bracket: "shrinks bracket_rule"
  unfolding shrinks_def
proof (intro allI impI)
  fix p x p'
  assume a: "bracket_rule p = Inr (x, p')"
  show "suffix (input p') (input p)"
  proof (cases "re_bracket (input p)")
    case None
    with a show ?thesis by (simp add: bracket_rule_def)
  next
    case (Some m)
    obtain m0 m1 m2 m3 where m: "m = (m0, m1, m2, m3)" by (cases m) auto
    let ?p1 = "updatePosition m0 p"
    show ?thesis
    proof (cases "replace_bs (str_or m2 []) = [] \<and> take 2 (input ?p1) = [backslash, CHR '']'']")
      case True
      with a Some m obtain i2 where
        "bracket_scan (input (consume 2 ?p1)) (replace_bs (str_or m2 []) @ take 2 (input ?p1)) (consume 2 ?p1) = Inr (i2, p')"
        by (auto simp: bracket_rule_def Let_def split: sum.splits)
      then have "suffix (input p') (input (consume 2 ?p1))" by (rule bracket_scan_suffix)
      then have "suffix (input p') (drop 2 (drop (length m0) (input p)))" by simp
      moreover have "suffix (drop 2 (drop (length m0) (input p))) (input p)" by (rule suffix_drop2)
      ultimately show ?thesis
        by (rule suffix_order.trans)
    next
      case False
      with a Some m have "p' = ?p1"
        by (auto simp: bracket_rule_def Let_def split: sum.splits)
      then show ?thesis by (simp add: suffix_drop)
    qed
  qed
qed

lemma run_rules_suffix:
  "\<forall>r \<in> set rs. shrinks r \<Longrightarrow> run_rules rs p = Inr (x, p') \<Longrightarrow> suffix (input p') (input p)"
proof (induction rs arbitrary: p)
  case Nil
  then show ?case by simp
next
  case (Cons r rs)
  show ?case
  proof (cases "r p")
    case (Inl e)
    with Cons.prems show ?thesis by simp
  next
    case (Inr y)
    obtain n p1 where y: "y = (n, p1)" by (cases y)
    from Cons.prems(1) Inr y have s1: "suffix (input p1) (input p)"
      by (auto simp: shrinks_def)
    show ?thesis
    proof (cases n)
      case None
      with Inr y Cons.prems have "run_rules rs p1 = Inr (x, p')" by simp
      with Cons.IH Cons.prems(1) have "suffix (input p') (input p1)" by simp
      with s1 show ?thesis using suffix_order.trans by blast
    next
      case (Some nd)
      with Inr y Cons.prems have "p' = p1" by simp
      with s1 show ?thesis by simp
    qed
  qed
qed

lemma rules_shrink: "\<forall>r \<in> set rules. shrinks r"
  by (simp add: rules_def shrinks_prefix shrinks_escape shrinks_quoted shrinks_not shrinks_dot
      shrinks_plus shrinks_qmark shrinks_globstar shrinks_star shrinks_slash shrinks_backslash
      shrinks_square shrinks_bracket shrinks_text)

lemma rules_suffix: "run_rules rules p = Inr (x, p') \<Longrightarrow> suffix (input p') (input p)"
  using run_rules_suffix rules_shrink by blast

lemma suffix_neq_shorter: "suffix a b \<Longrightarrow> a \<noteq> b \<Longrightarrow> length a < length b"
  by (metis suffix_length_le le_neq_implies_less suffix_def append_eq_append_conv append_Nil)

subsection \<open>The driver\<close>

text \<open>
  Modelled from the spec: the loop that owns the scan cursor belongs to the parser
  library, which is not part of this repository's sources. By the spec (sections 2
  and 7) it queries the rule set at the current cursor until the input is exhausted,
  appends the node of each successful rule application, and fails loudly at a cursor
  position where no rule matches and input remains. The error keeps the input that was
  left there.
\<close>

definition push :: "node option \<Rightarrow> parser \<Rightarrow> parser" where
  "push tok p = (case tok of None \<Rightarrow> p | Some n \<Rightarrow> p\<lparr>nodes := nodes p @ [n]\<rparr>)"

lemma input_push [simp]: "input (push tok p) = input p"
  by (simp add: push_def split: option.splits)

function parse :: "parser \<Rightarrow> error + parser" where
  "parse p =
     (if input p = [] then Inr p
      else case run_rules rules p of
        Inl e \<Rightarrow> Inl e
      | Inr (tok, p1) \<Rightarrow>
          if input (push tok p1) = input p then Inl (NoParser (input p))
          else parse (push tok p1))"
  by pat_completeness auto
termination
proof (relation "measure (\<lambda>p. length (input p))")
  show "wf (measure (\<lambda>p. length (input p)))"
    by simp
next
  fix p :: parser and x tok p1
  assume r: "run_rules rules p = Inr x" "(tok, p1) = x"
    and ne: "input (push tok p1) \<noteq> input p"
  from r have "suffix (input p1) (input p)"
    by (auto intro: rules_suffix)
  then have "length (input (push tok p1)) < length (input p)"
    using ne by (simp add: suffix_neq_shorter)
  then show "(push tok p1, p) \<in> measure (\<lambda>p. length (input p))"
    by simp
qed

declare parse.simps [simp del]

text \<open>
  A fresh parser for one pattern: the lexer state as this file creates it
  (\<open>{slashes: 0, paths: []}\<close>), nothing parsed, no set open, no node.
\<close>

definition init_state :: lexer_state where
  "init_state = \<lparr>slashes = 0, paths = [], strictOpen = None, addPrefix = None, dot = None,
     metachar = None, qmark = None, globstar = None, star = None\<rparr>"

definition init_parser :: "options \<Rightarrow> string \<Rightarrow> parser" where
  "init_parser os pattern = \<lparr>opts = os, input = pattern, parsed = [], state = init_state,
     bos_val = None, append_val = None, sets = (\<lambda>t. 0), nodes = []\<rparr>"

definition tokenize :: "options \<Rightarrow> string \<Rightarrow> error + parser" where
  "tokenize os pattern = parse (init_parser os pattern)"

text \<open>No option set: what the rules see when the caller passes none.\<close>

definition no_options :: options where
  "no_options = \<lparr>opt_strictOpen = False, opt_nonegate = False, opt_noglobstar = False\<rparr>"

text \<open>The type and value of each node of a result, or the error.\<close>

definition summary :: "error + parser \<Rightarrow> error + (node_type \<times> string) list" where
  "summary r = map_sum id (map (\<lambda>n. (ntype n, val n)) \<circ> nodes) r"

text \<open>
  A flag of the lexer state after a step, against the flag before it: it is unchanged,
  or it is \<open>true\<close>.
\<close>

definition flag_kept :: "bool option \<Rightarrow> bool option \<Rightarrow> bool" where
  "flag_kept a b = (b = a \<or> b = Some True)"

definition flags_monotone :: "lexer_state \<Rightarrow> lexer_state \<Rightarrow> bool" where
  "flags_monotone s t =
     (flag_kept (metachar s) (metachar t) \<and> flag_kept (star s) (star t)
      \<and> flag_kept (globstar s) (globstar t))"

text \<open>A pattern that matches takes at least one character of an input that is not empty.\<close>

definition takes :: "string \<Rightarrow> string \<Rightarrow> bool" where
  "takes m s = (m \<noteq> [] \<and> s \<noteq> [])"

text \<open>A rule either makes the input shorter, or returns nothing and leaves the parser alone.\<close>

definition consumes :: "rule_e \<Rightarrow> bool" where
  "consumes r = (\<forall>p x p'. r p = Inr (x, p') \<longrightarrow>
     length (input p') < length (input p) \<or> (x = None \<and> p' = p))"

text \<open>A rule keeps the three flags monotone.\<close>

definition keeps_flags :: "rule_e \<Rightarrow> bool" where
  "keeps_flags r = (\<forall>p x p'. r p = Inr (x, p') \<longrightarrow> flags_monotone (state p) (state p'))"

text \<open>What one call of \<open>advance\<close> appends to \<open>esc\<close> for the current character.\<close>

definition esc_of :: "char option \<Rightarrow> string" where
  "esc_of c = (if c \<noteq> Some backslash then backslash # ch_str c else [])"

text \<open>
  What \<open>esc\<close> holds after the characters at the positions below \<open>n\<close> were the current
  character of a call of \<open>advance\<close> (a position past the end gives the empty string).
\<close>

definition scanned :: "string \<Rightarrow> nat \<Rightarrow> string" where
  "scanned inp n = concat (map (\<lambda>i. esc_of (charAt inp i)) [0..<n])"

text \<open>The state of the scan between two calls of \<open>advance\<close>.\<close>

definition synced :: "string \<Rightarrow> scan \<Rightarrow> bool" where
  "synced inp sc = (ch sc = charAt inp (idx sc) \<and> tok_len sc = Suc (idx sc)
     \<and> tok_esc sc = scanned inp (idx sc))"

text \<open>
  The inputs on which no rule matches outside a bracket context: the empty input, an
  input that starts with a line terminator, with \<open>+(\<close> or with \<open>?(\<close>, and \<open>*(\<close> when
  what follows is the end of the input or a line terminator.
\<close>

definition no_rule_input :: "string \<Rightarrow> bool" where
  "no_rule_input s =
     (case s of
        [] \<Rightarrow> True
      | c # r \<Rightarrow>
          line_terminator c
          \<or> ((c = CHR ''+'' \<or> c = CHR ''?'') \<and> starts_with ''('' r)
          \<or> (c = CHR ''*'' \<and> starts_with ''('' r \<and> \<not> ahead_any (drop 1 r)))"

text \<open>No pattern of a rule that runs outside a bracket context matches.\<close>

definition all_fail :: "string \<Rightarrow> bool" where
  "all_fail s =
     (re_escape s = None \<and> re_quote s = None \<and> re_not s = None \<and> re_dot s = None
      \<and> re_plus s = None \<and> re_qmark s = None \<and> re_globstar s = None \<and> re_star s = None
      \<and> re_slash s = None \<and> re_backslash s = None \<and> re_bracket s = None
      \<and> re_text s = None)"

text \<open>A rule leaves the open sets alone.\<close>

definition keeps_sets :: "rule_e \<Rightarrow> bool" where
  "keeps_sets r = (\<forall>p x p'. r p = Inr (x, p') \<longrightarrow> sets p' = sets p)"

text \<open>
  The steps of the scan that are forced when it arrives at position \<open>i\<close>: each
  backslash it finds as the next character forces two further steps, and each step
  uses one up. The scan can end only where none is forced, at the end character or past
  the end of the input.
\<close>

fun pending :: "string \<Rightarrow> nat \<Rightarrow> nat" where
  "pending inp 0 = 0"
| "pending inp (Suc i) =
     (pending inp i - 1) + (if charAt inp (Suc i) = Some backslash then 2 else 0)"

definition span_end :: "string \<Rightarrow> char \<Rightarrow> nat \<Rightarrow> bool" where
  "span_end inp e i = (pending inp i = 0 \<and> (charAt inp i = None \<or> charAt inp i = Some e))"

section \<open>Properties\<close>

subsection \<open>The driver, case by case\<close>

lemma parse_Nil: "input p = [] \<Longrightarrow> parse p = Inr p"
  by (simp add: parse.simps)

lemma parse_error: "input p \<noteq> [] \<Longrightarrow> run_rules rules p = Inl e \<Longrightarrow> parse p = Inl e"
  by (simp add: parse.simps)

lemma parse_stuck:
  "input p \<noteq> [] \<Longrightarrow> run_rules rules p = Inr (tok, p1) \<Longrightarrow> input p1 = input p
     \<Longrightarrow> parse p = Inl (NoParser (input p))"
  by (simp add: parse.simps)

lemma parse_step:
  "input p \<noteq> [] \<Longrightarrow> run_rules rules p = Inr (tok, p1) \<Longrightarrow> input p1 \<noteq> input p
     \<Longrightarrow> parse p = parse (push tok p1)"
  by (simp add: parse.simps)

lemma parse_cases [case_names Nil error stuck step]:
  assumes "\<And>p. input p = [] \<Longrightarrow> Q p (Inr p)"
    and "\<And>p e. input p \<noteq> [] \<Longrightarrow> run_rules rules p = Inl e \<Longrightarrow> Q p (Inl e)"
    and "\<And>p tok p1. input p \<noteq> [] \<Longrightarrow> run_rules rules p = Inr (tok, p1)
           \<Longrightarrow> input p1 = input p \<Longrightarrow> Q p (Inl (NoParser (input p)))"
    and "\<And>p tok p1. input p \<noteq> [] \<Longrightarrow> run_rules rules p = Inr (tok, p1)
           \<Longrightarrow> input p1 \<noteq> input p \<Longrightarrow> Q (push tok p1) (parse (push tok p1))
           \<Longrightarrow> Q p (parse (push tok p1))"
  shows "Q p (parse p)"
proof (induction p rule: parse.induct)
  case (1 p)
  show ?case
  proof (cases "input p = []")
    case True
    then show ?thesis by (simp add: parse_Nil assms(1))
  next
    case False
    show ?thesis
    proof (cases "run_rules rules p")
      case (Inl e)
      with False show ?thesis by (simp add: parse_error assms(2))
    next
      case (Inr y)
      obtain tok p1 where y: "y = (tok, p1)" by (cases y)
      show ?thesis
      proof (cases "input p1 = input p")
        case True
        with False Inr y show ?thesis by (simp add: parse_stuck assms(3))
      next
        case ne: False
        from Inr y have r: "run_rules rules p = Inr (tok, p1)" by simp
        from ne have "input (push tok p1) \<noteq> input p" by simp
        with False r have "Q (push tok p1) (parse (push tok p1))"
          by (rule "1.IH" [OF _ _ refl])
        with False r ne have "Q p (parse (push tok p1))"
          by (rule assms(4))
        with False r ne show ?thesis by (simp add: parse_step)
      qed
    qed
  qed
qed


subsection \<open>Quoted strings\<close>

lemma re_quote_Cons: "re_quote (q # r) = (if q = dquote \<or> q = squote then Some q else None)"
  by (simp add: re_quote_def)

text \<open>
  Claim C6. Where the input starts with a double or single quote and the same quote
  character does not occur in the input after it, the quoted rule returns an escape
  node whose value is that quote character, and consumes the quote alone: the input
  left is the input after the quote.
\<close>

theorem quoted_rule_unterminated:
  assumes "input p = q # r" and "q = dquote \<or> q = squote" and "q \<notin> set r"
  shows "quoted_rule p
    = (Some (mk_node ty_escape [q]), p\<lparr>parsed := parsed p @ [q], input := r\<rparr>)"
  using assms
  by (auto simp: quoted_rule_def re_quote_Cons updatePosition_def consume_def Let_def)

theorem quoted_rule_unterminated_witness:
  "input (init_parser no_options (squote # ''s'')) = squote # ''s''
   \<and> squote \<notin> set ''s''
   \<and> quoted_rule (init_parser no_options (squote # ''s''))
     = (Some (mk_node ty_escape [squote]),
        (init_parser no_options (squote # ''s''))\<lparr>parsed := [squote], input := ''s''\<rparr>)"
  using quoted_rule_unterminated [of "init_parser no_options (squote # ''s'')" squote "''s''"]
  by (simp add: init_parser_def)

subsection \<open>Globstar\<close>

lemma re_globstar_Some_iff:
  "(re_globstar s \<noteq> None)
     = (\<exists>r. s = ''**'' @ r
          \<and> (case r of [] \<Rightarrow> True
              | c # t \<Rightarrow> c \<noteq> CHR ''*'' \<and> c \<noteq> CHR ''(''
                  \<and> (c = CHR '','' \<or> c = CHR '')'' \<or> c = CHR ''/'')))"
proof (cases s)
  case Nil
  then show ?thesis by (simp add: re_globstar_def starts_with_def)
next
  case (Cons a s1)
  show ?thesis
  proof (cases s1)
    case Nil
    with Cons show ?thesis by (simp add: re_globstar_def starts_with_def)
  next
    case (Cons b r)
    with \<open>s = a # s1\<close> show ?thesis
      by (cases r) (auto simp: re_globstar_def starts_with_def ahead_in_def)
  qed
qed

lemma globstar_rule_Some_iff:
  "(\<exists>n p'. globstar_rule p = (Some n, p')) = (re_globstar (input p) \<noteq> None)"
  by (auto simp: globstar_rule_def Let_def split: option.splits)

text \<open>
  Claim C2. The pattern \<open>**\<close> gives exactly one node: a globstar node with the value
  \<open>**\<close> when \<open>noglobstar\<close> is not true, a star node with the value \<open>*\<close> when it
  is. And at any cursor position the globstar rule returns a node if and only if the
  input left starts with \<open>**\<close> and what follows is the end of the input, or a
  character that is neither \<open>*\<close> nor \<open>(\<close> and is one of \<open>,\<close> \<open>)\<close> \<open>/\<close>.
\<close>

theorem globstar_rule_fires:
  "summary (tokenize \<lparr>opt_strictOpen = so, opt_nonegate = ng, opt_noglobstar = False\<rparr> ''**'')
     = Inr [(ty_globstar, ''**'')]
   \<and> summary (tokenize \<lparr>opt_strictOpen = so, opt_nonegate = ng, opt_noglobstar = True\<rparr> ''**'')
     = Inr [(ty_star, ''*'')]
   \<and> ((\<exists>n p'. globstar_rule p = (Some n, p'))
      \<longleftrightarrow> (\<exists>r. input p = ''**'' @ r
            \<and> (case r of [] \<Rightarrow> True
                | c # t \<Rightarrow> c \<noteq> CHR ''*'' \<and> c \<noteq> CHR ''(''
                    \<and> (c = CHR '','' \<or> c = CHR '')'' \<or> c = CHR ''/''))))"
proof (intro conjI)
  show "summary (tokenize \<lparr>opt_strictOpen = so, opt_nonegate = ng, opt_noglobstar = False\<rparr> ''**'')
     = Inr [(ty_globstar, ''**'')]"
    by code_simp
  show "summary (tokenize \<lparr>opt_strictOpen = so, opt_nonegate = ng, opt_noglobstar = True\<rparr> ''**'')
     = Inr [(ty_star, ''*'')]"
    by code_simp
  show "(\<exists>n p'. globstar_rule p = (Some n, p'))
      \<longleftrightarrow> (\<exists>r. input p = ''**'' @ r
            \<and> (case r of [] \<Rightarrow> True
                | c # t \<Rightarrow> c \<noteq> CHR ''*'' \<and> c \<noteq> CHR ''(''
                    \<and> (c = CHR '','' \<or> c = CHR '')'' \<or> c = CHR ''/'')))"
    by (simp only: globstar_rule_Some_iff re_globstar_Some_iff)
qed

theorem globstar_rule_fires_witness:
  "(\<exists>n p'. globstar_rule (init_parser no_options ''**/a'') = (Some n, p'))
   \<and> \<not> (\<exists>n p'. globstar_rule (init_parser no_options ''**a'') = (Some n, p'))
   \<and> \<not> (\<exists>n p'. globstar_rule (init_parser no_options ''***'') = (Some n, p'))"
  using globstar_rule_fires [of False False "init_parser no_options ''**/a''"]
    globstar_rule_fires [of False False "init_parser no_options ''**a''"]
    globstar_rule_fires [of False False "init_parser no_options ''***''"]
  by (simp add: init_parser_def)

lemma fold_globstars_runs:
  "(\<exists>k. s = concat (replicate k ''/**'') @ fold_globstars s)
   \<and> take 4 (fold_globstars s) \<noteq> ''/**/''"
proof (induction s rule: fold_globstars.induct)
  case (1 s)
  show ?case
  proof (cases "take 4 s = ''/**/''")
    case True
    then have "take 3 (take 4 s) = ''/**''"
      by simp
    then have "take 3 s = ''/**''"
      by (simp add: min_def)
    then have s: "s = ''/**'' @ drop 3 s"
      by (metis append_take_drop_id)
    from 1 True obtain k
      where k: "drop 3 s = concat (replicate k ''/**'') @ fold_globstars (drop 3 s)"
        and n: "take 4 (fold_globstars (drop 3 s)) \<noteq> ''/**/''"
      by blast
    have f: "fold_globstars s = fold_globstars (drop 3 s)"
      using True by (subst fold_globstars.simps) simp
    have "s = concat (replicate (Suc k) ''/**'') @ fold_globstars s"
      using s k f by (metis append.assoc concat.simps(2) replicate_Suc)
    with n f show ?thesis
      by metis
  next
    case False
    then have f: "fold_globstars s = s"
      by (subst fold_globstars.simps) simp
    have "s = concat (replicate 0 ''/**'') @ s"
      by simp
    with f False show ?thesis
      by metis
  qed
qed

lemma globstar_rule_input:
  "globstar_rule p = (Some n, p') \<Longrightarrow> input p' = fold_globstars (drop 2 (input p))"
  by (auto simp: globstar_rule_def re_globstar_def Let_def numeral_2_eq_2
      split: option.splits if_splits)

text \<open>
  Claim C3. \<open>a/**/**/**/b\<close> and \<open>a/**/b\<close> give the same nodes (nodes carry no source
  span here), under every configuration; with \<open>noglobstar\<close> not true they are text,
  slash, one globstar node, slash, text. When the globstar rule returns a node, the
  input after the matched \<open>**\<close> is a number of repetitions of \<open>/**\<close> followed by
  the input the rule leaves, and the input it leaves does not start with \<open>/**/\<close>.
\<close>

theorem globstar_folding:
  "map_sum id nodes
       (tokenize \<lparr>opt_strictOpen = so, opt_nonegate = ng, opt_noglobstar = gs\<rparr> ''a/**/**/**/b'')
     = map_sum id nodes
       (tokenize \<lparr>opt_strictOpen = so, opt_nonegate = ng, opt_noglobstar = gs\<rparr> ''a/**/b'')
   \<and> summary
       (tokenize \<lparr>opt_strictOpen = so, opt_nonegate = ng, opt_noglobstar = False\<rparr> ''a/**/**/**/b'')
     = Inr [(ty_text, ''a''), (ty_slash, ''/''), (ty_globstar, ''**''), (ty_slash, ''/''),
            (ty_text, ''b'')]
   \<and> (globstar_rule p = (Some n, p') \<longrightarrow>
        (\<exists>k. drop 2 (input p) = concat (replicate k ''/**'') @ input p')
        \<and> take 4 (input p') \<noteq> ''/**/'')"
proof (intro conjI impI)
  show "map_sum id nodes
       (tokenize \<lparr>opt_strictOpen = so, opt_nonegate = ng, opt_noglobstar = gs\<rparr> ''a/**/**/**/b'')
     = map_sum id nodes
       (tokenize \<lparr>opt_strictOpen = so, opt_nonegate = ng, opt_noglobstar = gs\<rparr> ''a/**/b'')"
    by (cases gs; simp only:; code_simp)
  show "summary
       (tokenize \<lparr>opt_strictOpen = so, opt_nonegate = ng, opt_noglobstar = False\<rparr> ''a/**/**/**/b'')
     = Inr [(ty_text, ''a''), (ty_slash, ''/''), (ty_globstar, ''**''), (ty_slash, ''/''),
            (ty_text, ''b'')]"
    by code_simp
next
  assume "globstar_rule p = (Some n, p')"
  then have "input p' = fold_globstars (drop 2 (input p))"
    by (rule globstar_rule_input)
  then show "\<exists>k. drop 2 (input p) = concat (replicate k ''/**'') @ input p'"
    and "take 4 (input p') \<noteq> ''/**/''"
    using fold_globstars_runs [of "drop 2 (input p)"] by simp_all
qed

theorem globstar_folding_witness:
  "fst (globstar_rule (init_parser no_options ''**/**/**/b'')) \<noteq> None
   \<and> input (snd (globstar_rule (init_parser no_options ''**/**/**/b''))) = ''/b''
   \<and> (\<exists>k. ''/**/**/b'' = concat (replicate k ''/**'') @ ''/b'')"
proof -
  let ?p = "init_parser no_options ''**/**/**/b''"
  have i: "input (snd (globstar_rule ?p)) = ''/b''"
    by (simp add: globstar_rule_def re_globstar_def starts_with_def ahead_in_def Let_def
        init_parser_def no_options_def fold_globstars.simps)
  have f: "fst (globstar_rule ?p) \<noteq> None"
    by (simp add: globstar_rule_def re_globstar_def starts_with_def ahead_in_def Let_def
        init_parser_def no_options_def)
  then obtain n where "globstar_rule ?p = (Some n, snd (globstar_rule ?p))"
    by (cases "globstar_rule ?p") auto
  then have "\<exists>k. drop 2 (input ?p) = concat (replicate k ''/**'') @ input (snd (globstar_rule ?p))"
    using globstar_folding [of False False False ?p n "snd (globstar_rule ?p)"] by blast
  with i f show ?thesis
    by (simp add: init_parser_def)
qed

subsection \<open>Negation\<close>

lemma takeWhile_run:
  "\<not> ahead_in [c] r \<Longrightarrow> takeWhile (\<lambda>x. x = c) (replicate k c @ r) = replicate k c"
  by (induction k) (auto simp: ahead_in_def split: list.splits)

lemma re_not_run:
  "0 < k \<Longrightarrow> \<not> ahead_in ''!'' r
     \<Longrightarrow> re_not (replicate k (CHR ''!'') @ r) = Some (replicate k (CHR ''!''))"
  by (simp add: re_not_def run_def takeWhile_run Let_def)

text \<open>
  Claim C4. With \<open>nonegate\<close> not true, \<open>!foo\<close> sets the beginning-of-string value to
  the opening \<open>(?!^(?:\<close> and the append value to the closing \<open>)$).*\<close>, and its nodes
  are a not node with the empty value and a text node \<open>foo\<close>. At any parser where
  nothing has been parsed, the input starts with a run of \<open>!\<close> of odd length (the
  whole run: what follows does not start with \<open>!\<close>) and \<open>nonegate\<close> is not true, the
  not rule consumes the run, sets these two values and returns a not node with the empty
  value.
\<close>

theorem not_rule_negation:
  "map_sum id (\<lambda>q. (bos_val q, append_val q, nodes q))
     (tokenize \<lparr>opt_strictOpen = so, opt_nonegate = False, opt_noglobstar = gs\<rparr> ''!foo'')
     = Inr (Some ''(?!^(?:'', Some '')$).*'', [mk_node ty_not [], mk_node ty_text ''foo''])
   \<and> (parsed p = [] \<and> input p = replicate k (CHR ''!'') @ r \<and> \<not> ahead_in ''!'' r \<and> odd k
        \<and> \<not> opt_nonegate (opts p) \<longrightarrow>
      not_rule p = (Some (mk_node ty_not []),
        p\<lparr>parsed := replicate k (CHR ''!''), input := r,
          bos_val := Some ''(?!^(?:'', append_val := Some '')$).*''\<rparr>))"
proof (intro conjI impI)
  show "map_sum id (\<lambda>q. (bos_val q, append_val q, nodes q))
     (tokenize \<lparr>opt_strictOpen = so, opt_nonegate = False, opt_noglobstar = gs\<rparr> ''!foo'')
     = Inr (Some ''(?!^(?:'', Some '')$).*'', [mk_node ty_not [], mk_node ty_text ''foo''])"
    by code_simp
next
  assume a: "parsed p = [] \<and> input p = replicate k (CHR ''!'') @ r \<and> \<not> ahead_in ''!'' r
    \<and> odd k \<and> \<not> opt_nonegate (opts p)"
  then have "0 < k"
    by (auto intro: Nat.gr0I)
  with a have "re_not (input p) = Some (replicate k (CHR ''!''))"
    by (simp add: re_not_run)
  with a show "not_rule p = (Some (mk_node ty_not []),
        p\<lparr>parsed := replicate k (CHR ''!''), input := r,
          bos_val := Some ''(?!^(?:'', append_val := Some '')$).*''\<rparr>)"
    by (simp add: not_rule_def Let_def updatePosition_def consume_def odd_iff_mod_2_eq_one)
qed

theorem not_rule_negation_witness:
  "parsed (init_parser no_options ''!!!a'') = []
   \<and> input (init_parser no_options ''!!!a'') = replicate 3 (CHR ''!'') @ ''a''
   \<and> \<not> ahead_in ''!'' ''a'' \<and> odd (3::nat)
   \<and> \<not> opt_nonegate (opts (init_parser no_options ''!!!a''))
   \<and> not_rule (init_parser no_options ''!!!a'')
     = (Some (mk_node ty_not []),
        (init_parser no_options ''!!!a'')\<lparr>parsed := ''!!!'', input := ''a'',
          bos_val := Some ''(?!^(?:'', append_val := Some '')$).*''\<rparr>)"
  using not_rule_negation [of False False "init_parser no_options ''!!!a''" 3 "''a''"]
  by (simp add: init_parser_def no_options_def ahead_in_def numeral_3_eq_3)

subsection \<open>The flags of the lexer state\<close>

lemma flags_monotone_refl [simp]: "flags_monotone s s"
  by (simp add: flags_monotone_def flag_kept_def)

lemma flags_monotone_trans:
  "flags_monotone s t \<Longrightarrow> flags_monotone t u \<Longrightarrow> flags_monotone s u"
  by (auto simp: flags_monotone_def flag_kept_def)

lemma state_updatePosition [simp]: "state (updatePosition m p) = state p"
  by (simp add: updatePosition_def consume_def)

lemma state_consume [simp]: "state (consume n p) = state p"
  by (simp add: consume_def)

lemma bracket_scan_state: "bracket_scan str i p = Inr (i', p') \<Longrightarrow> state p' = state p"
proof (induction str arbitrary: i p)
  case Nil
  then show ?case by simp
next
  case (Cons c str)
  from Cons.prems have "bracket_scan str (i @ [c]) (consume 1 p) = Inr (i', p')"
    by (simp add: Let_def split: if_splits)
  then have "state p' = state (consume 1 p)" by (rule Cons.IH)
  then show ?case by simp
qed

lemma bracket_rule_state: "bracket_rule p = Inr (x, p') \<Longrightarrow> state p' = state p"
  by (auto simp: bracket_rule_def Let_def split: option.splits if_splits sum.splits
      dest!: bracket_scan_state)

lemma rules_keep_flags: "\<forall>r \<in> set rules. keeps_flags r"
proof -
  have "keeps_flags (lift prefix_rule)"
    by (auto simp: keeps_flags_def lift_def prefix_rule_def Let_def flags_monotone_def flag_kept_def split: option.splits if_splits)
  moreover have "keeps_flags (lift escape_rule)"
    by (auto simp: keeps_flags_def lift_def escape_rule_def Let_def split: option.splits if_splits)
  moreover have "keeps_flags (lift quoted_rule)"
    by (auto simp: keeps_flags_def lift_def quoted_rule_def Let_def split: option.splits if_splits)
  moreover have "keeps_flags (lift not_rule)"
    by (auto simp: keeps_flags_def lift_def not_rule_def Let_def split: option.splits if_splits)
  moreover have "keeps_flags (lift dot_rule)"
    by (auto simp: keeps_flags_def lift_def dot_rule_def Let_def flags_monotone_def flag_kept_def split: option.splits if_splits)
  moreover have "keeps_flags (lift plus_rule)"
    by (auto simp: keeps_flags_def lift_def plus_rule_def Let_def split: option.splits if_splits)
  moreover have "keeps_flags (lift qmark_rule)"
    by (auto simp: keeps_flags_def lift_def qmark_rule_def Let_def flags_monotone_def flag_kept_def split: option.splits if_splits)
  moreover have "keeps_flags (lift globstar_rule)"
    by (auto simp: keeps_flags_def lift_def globstar_rule_def Let_def flags_monotone_def flag_kept_def split: option.splits if_splits)
  moreover have "keeps_flags (lift star_rule)"
    by (auto simp: keeps_flags_def lift_def star_rule_def Let_def flags_monotone_def flag_kept_def split: option.splits if_splits)
  moreover have "keeps_flags (lift slash_rule)"
    by (auto simp: keeps_flags_def lift_def slash_rule_def Let_def flags_monotone_def flag_kept_def split: option.splits if_splits)
  moreover have "keeps_flags (lift backslash_rule)"
    by (auto simp: keeps_flags_def lift_def backslash_rule_def Let_def split: option.splits if_splits)
  moreover have "keeps_flags (lift square_rule)"
    by (auto simp: keeps_flags_def lift_def square_rule_def Let_def split: option.splits if_splits)
  moreover have "keeps_flags bracket_rule"
    by (auto simp: keeps_flags_def dest: bracket_rule_state)
  moreover have "keeps_flags (lift text_rule)"
    by (auto simp: keeps_flags_def lift_def text_rule_def Let_def split: option.splits if_splits)
  ultimately show ?thesis by (simp add: rules_def)
qed

lemma run_rules_flags:
  "\<forall>r \<in> set rs. keeps_flags r \<Longrightarrow> run_rules rs p = Inr (x, p') \<Longrightarrow> flags_monotone (state p) (state p')"
proof (induction rs arbitrary: p)
  case Nil
  then show ?case by simp
next
  case (Cons r rs)
  show ?case
  proof (cases "r p")
    case (Inl e)
    with Cons.prems show ?thesis by simp
  next
    case (Inr y)
    obtain n p1 where y: "y = (n, p1)" by (cases y)
    from Cons.prems(1) Inr y have s1: "flags_monotone (state p) (state p1)"
      by (auto simp: keeps_flags_def)
    show ?thesis
    proof (cases n)
      case None
      with Inr y Cons.prems have "run_rules rs p1 = Inr (x, p')" by simp
      with Cons.IH Cons.prems(1) have "flags_monotone (state p1) (state p')" by simp
      with s1 show ?thesis by (rule flags_monotone_trans)
    next
      case (Some nd)
      with Inr y Cons.prems have "p' = p1" by simp
      with s1 show ?thesis by simp
    qed
  qed
qed

lemma state_push [simp]: "state (push tok p) = state p"
  by (simp add: push_def split: option.splits)

lemma parse_flags: "parse p = Inr q \<longrightarrow> flags_monotone (state p) (state q)"
proof (induction p rule: parse_cases)
  case (step p tok p1)
  from step(2) have "flags_monotone (state p) (state p1)"
    using run_rules_flags rules_keep_flags by blast
  with step(4) show ?case
    by (auto intro: flags_monotone_trans)
qed simp_all

text \<open>
  Claim C9. The flags \<open>metachar\<close>, \<open>star\<close> and \<open>globstar\<close> of the lexer state start
  undefined. Whatever rule of the rule set runs, on whatever parser, each of them is
  afterwards what it was before or \<open>true\<close>; so a flag that is \<open>true\<close> stays \<open>true\<close>.
  The same holds from the start to the end of a whole run of the driver.
\<close>

theorem flags_only_set:
  "metachar init_state = None \<and> star init_state = None \<and> globstar init_state = None
   \<and> (r \<in> set rules \<and> r p = Inr (x, p') \<longrightarrow> flags_monotone (state p) (state p'))
   \<and> (parse p = Inr q \<longrightarrow> flags_monotone (state p) (state q))"
  using rules_keep_flags parse_flags by (auto simp: init_state_def keeps_flags_def)

theorem flags_only_set_witness:
  "lift star_rule \<in> set rules
   \<and> metachar (state (snd (star_rule (init_parser no_options ''*a'')))) = Some True
   \<and> flags_monotone (state (init_parser no_options ''*a''))
       (state (snd (star_rule (init_parser no_options ''*a''))))"
proof -
  let ?p = "init_parser no_options ''*a''"
  have m: "lift star_rule \<in> set rules"
    by (simp add: rules_def)
  have r: "lift star_rule ?p = Inr (fst (star_rule ?p), snd (star_rule ?p))"
    by (simp add: lift_def)
  have t: "metachar (state (snd (star_rule ?p))) = Some True"
    by (simp add: star_rule_def re_star_def starts_with_def ahead_in_def Let_def init_parser_def)
  from m r have "flags_monotone (state ?p) (state (snd (star_rule ?p)))"
    using flags_only_set [of "lift star_rule" ?p "fst (star_rule ?p)" "snd (star_rule ?p)"]
    by blast
  with m t show ?thesis
    by simp
qed

subsection \<open>Backslash\<close>




subsection \<open>The text rule at an extglob opening\<close>

lemma updatePosition_Nil [simp]: "updatePosition [] p = p"
  by (simp add: updatePosition_def consume_def)

lemmas lifted_rule_defs =
  lift_def prefix_rule_def escape_rule_def quoted_rule_def not_rule_def dot_rule_def
  plus_rule_def qmark_rule_def globstar_rule_def star_rule_def slash_rule_def
  backslash_rule_def square_rule_def text_rule_def

lemmas re_defs =
  re_escape_def re_quote_def re_not_def re_dot_def re_plus_def re_qmark_def re_globstar_def
  re_star_def re_slash_def re_backslash_def re_text_def regex_not_def NOT_REGEX_def
  starts_with_def ahead_in_def ahead_any_def run_def

lemma no_rule_at_star_paren:
  assumes "input p = ''*(''"
  shows "run_rules rules p = Inr (None, p)"
proof -
  have "bracket_rule p = Inr (None, p)"
    using assms by (simp add: bracket_rule_def re_bracket_def starts_with_def)
  then show ?thesis
    using assms
    by (simp add: rules_def lifted_rule_defs re_defs numeral_2_eq_2)
qed

text \<open>
  Claim C10, as amended. Outside a bracket context, where the input starts with \<open>*(\<close>
  and the next character is not a line terminator, the text rule returns a text node
  with the value \<open>*(\<close> and consumes these two characters. Where the input is exactly
  \<open>*(\<close>, the text rule returns nothing, and so does the whole rule set, leaving the
  parser as it was.
\<close>

theorem text_rule_star_paren:
  "(\<not> is_inside p bracket \<and> input p = ''*('' @ c # r \<and> \<not> line_terminator c \<longrightarrow>
      text_rule p
        = (Some (mk_node ty_text ''*(''), p\<lparr>parsed := parsed p @ ''*('', input := c # r\<rparr>))
   \<and> (input p = ''*('' \<longrightarrow> text_rule p = (None, p) \<and> run_rules rules p = Inr (None, p))"
proof (intro conjI impI)
  assume "\<not> is_inside p bracket \<and> input p = ''*('' @ c # r \<and> \<not> line_terminator c"
  then show "text_rule p
      = (Some (mk_node ty_text ''*(''), p\<lparr>parsed := parsed p @ ''*('', input := c # r\<rparr>)"
    by (simp add: text_rule_def re_text_def starts_with_def ahead_any_def any_char_def
        updatePosition_def consume_def)
next
  assume a: "input p = ''*(''"
  then show "text_rule p = (None, p)"
    by (simp add: text_rule_def re_defs)
  from a show "run_rules rules p = Inr (None, p)"
    by (rule no_rule_at_star_paren)
qed

theorem text_rule_star_paren_witness:
  "\<not> is_inside (init_parser no_options ''*(a)'') bracket
   \<and> input (init_parser no_options ''*(a)'') = ''*('' @ CHR ''a'' # '')''
   \<and> \<not> line_terminator (CHR ''a'')
   \<and> text_rule (init_parser no_options ''*(a)'')
     = (Some (mk_node ty_text ''*(''),
        (init_parser no_options ''*(a)'')\<lparr>parsed := ''*('', input := ''a)''\<rparr>)
   \<and> input (init_parser no_options ''*('') = ''*(''
   \<and> text_rule (init_parser no_options ''*('') = (None, init_parser no_options ''*('')
   \<and> run_rules rules (init_parser no_options ''*('') = Inr (None, init_parser no_options ''*('')"
  using text_rule_star_paren [of "init_parser no_options ''*(a)''" "CHR ''a''" "'')''"]
    text_rule_star_paren [of "init_parser no_options ''*(''"]
  by (simp add: init_parser_def is_inside_def line_terminator_def)

text \<open>
  Outside a bracket context, on \<open>*(\<close> followed by a line feed, a further character
  follows and yet the text rule returns nothing (the look-ahead \<open>(?=.)\<close> does not
  accept a line terminator); no other rule matches there either.
\<close>

theorem text_rule_newline_counterexample:
  "\<not> is_inside (init_parser no_options (''*('' @ [CHR 0x0A])) bracket
   \<and> fst (text_rule (init_parser no_options (''*('' @ [CHR 0x0A]))) = None
   \<and> summary (tokenize no_options (''*('' @ [CHR 0x0A]))
       = Inl (NoParser (''*('' @ [CHR 0x0A]))"
proof (intro conjI)
  show "\<not> is_inside (init_parser no_options (''*('' @ [CHR 0x0A])) bracket"
    by (simp add: init_parser_def is_inside_def)
  show "fst (text_rule (init_parser no_options (''*('' @ [CHR 0x0A]))) = None"
    by code_simp
  show "summary (tokenize no_options (''*('' @ [CHR 0x0A])) = Inl (NoParser (''*('' @ [CHR 0x0A]))"
    by code_simp
qed

subsection \<open>Brackets\<close>

lemma replace_bs_Nil_iff: "(replace_bs s = []) = (s = [])"
  by (induction s rule: replace_bs.induct) auto

lemma bracket_g2_run_nonempty: "bracket_g2_run k s = Some (g2, g3) \<Longrightarrow> s \<noteq> [] \<Longrightarrow> g2 \<noteq> []"
  by (induction k) (auto split: option.splits)

lemma bracket_g2_nonempty: "bracket_g2 s = Some (g2, g3) \<Longrightarrow> g2 \<noteq> []"
proof (cases "s = []")
  case True
  assume "bracket_g2 s = Some (g2, g3)"
  with True show ?thesis by (simp add: bracket_g2_def run_def starts_with_def)
next
  case False
  assume "bracket_g2 s = Some (g2, g3)"
  with False show ?thesis
    by (auto simp: bracket_g2_def split: option.splits if_splits dest: bracket_g2_run_nonempty)
qed

lemma bracket_g1_nonempty: "bracket_g1 s = Some (g1, g2, g3) \<Longrightarrow> g2 \<noteq> []"
  by (auto simp: bracket_g1_def split: option.splits if_splits dest: bracket_g2_nonempty)

lemma bracket_g1_escaped_close:
  "bracket_g1 (backslash # CHR '']'' # r) = Some ([], [backslash], '']'')"
  by (simp add: bracket_g1_def bracket_g2_def bracket_g3_def run_def ahead_in_def starts_with_def)

lemma re_bracket_no_edge:
  assumes "re_bracket s = Some (m0, m1, m2, m3)"
  shows "\<not> (replace_bs (str_or m2 []) = [] \<and> take 2 (drop (length m0) s) = [backslash, CHR '']''])"
proof (cases "bracket_g1 (drop 1 s)")
  case None
  with assms have m: "m0 = ''[''" "take 1 s = ''[''"
    by (auto simp: re_bracket_def starts_with_def split: if_splits)
  show ?thesis
  proof
    assume "replace_bs (str_or m2 []) = [] \<and> take 2 (drop (length m0) s) = [backslash, CHR '']'']"
    with m have "take 2 (drop 1 s) = [backslash, CHR '']'']" by simp
    then obtain r where "drop 1 s = backslash # CHR '']'' # r"
      by (cases "drop 1 s"; cases "tl (drop 1 s)") (auto simp: numeral_2_eq_2)
    with None show False by (simp add: bracket_g1_escaped_close)
  qed
next
  case (Some g)
  obtain g1 g2 g3 where g: "g = (g1, g2, g3)" by (cases g)
  with Some have "g2 \<noteq> []" by (auto dest: bracket_g1_nonempty)
  moreover from assms Some g have "m2 = Some g2"
    by (auto simp: re_bracket_def split: if_splits)
  ultimately show ?thesis
    by (simp add: str_or_def truthy_def replace_bs_Nil_iff)
qed

text \<open>The rule without the scan that is never entered.\<close>

lemma bracket_rule_eq:
  "bracket_rule p =
     (case re_bracket (input p) of
        None \<Rightarrow> Inr (None, p)
      | Some (m0, m1, m2, m3) \<Rightarrow>
          Inr (Some (bracket_node
                 (if truthy m2 \<and> length (replace_bs (str_or m2 [])) < length (str_or m2 [])
                  then replace_bs m0 else m0)
                 (if truthy m1 then ''^'' else [])
                 (replace_bs (str_or m2 []))
                 (str_or m3 [])),
               updatePosition m0 p))"
proof (cases "re_bracket (input p)")
  case None
  then show ?thesis by (simp add: bracket_rule_def)
next
  case (Some m)
  obtain m0 m1 m2 m3 where m: "m = (m0, m1, m2, m3)" by (cases m)
  from Some m have "\<not> (replace_bs (str_or m2 []) = []
      \<and> take 2 (drop (length m0) (input p)) = [backslash, CHR '']''])"
    by (intro re_bracket_no_edge) simp
  then have ne: "\<not> (replace_bs (str_or m2 []) = []
      \<and> take 2 (input (updatePosition m0 p)) = [backslash, CHR '']''])"
    by (simp add: updatePosition_def consume_def)
  show ?thesis
    unfolding bracket_rule_def Some m Let_def
    by (simp only: option.case prod.case if_not_P [OF ne])
qed

lemma bracket_g3_close: "bracket_g3 s = Some '']'' \<Longrightarrow> CHR '']'' \<in> set s"
  by (cases s) (auto simp: bracket_g3_def starts_with_def Let_def split: if_splits)

lemma bracket_g2_run_close: "bracket_g2_run k s = Some (g2, '']'') \<Longrightarrow> CHR '']'' \<in> set s"
  by (induction k) (auto split: option.splits dest!: bracket_g3_close in_set_dropD)

lemma bracket_g2_close: "bracket_g2 s = Some (g2, '']'') \<Longrightarrow> CHR '']'' \<in> set s"
  by (auto simp: bracket_g2_def split: option.splits if_splits
      dest!: bracket_g2_run_close bracket_g3_close in_set_dropD)

lemma bracket_g1_close: "bracket_g1 s = Some (g1, g2, '']'') \<Longrightarrow> CHR '']'' \<in> set s"
  by (auto simp: bracket_g1_def split: option.splits if_splits
      dest!: bracket_g2_close in_set_dropD)

lemma re_bracket_close:
  "re_bracket (CHR ''['' # r) = Some (m0, m1, m2, m3) \<Longrightarrow> CHR '']'' \<notin> set r \<Longrightarrow> str_or m3 [] \<noteq> '']''"
  by (auto simp: re_bracket_def starts_with_def str_or_def truthy_def split: option.splits
      dest!: bracket_g1_close)

lemma re_bracket_open: "re_bracket (CHR ''['' # r) \<noteq> None"
  by (simp add: re_bracket_def starts_with_def split: option.splits)

lemma bracket_scan_close:
  "CHR '']'' \<notin> set s \<Longrightarrow> bracket_scan (s @ CHR '']'' # t) i q = Inl AssignToConstant"
  by (induction s arbitrary: i q) (auto simp: Let_def)

text \<open>
  Claim C7 (the code falls short of it). The scan that the rule holds for an empty body
  followed by an escaped \<open>]\<close> is never entered: whatever the pattern matches, the body
  is not empty or the input left does not start with a backslash and \<open>]\<close>. Where the
  input starts with \<open>[\<close>, a backslash and \<open>]\<close>, the first alternative of the pattern
  matches these three characters: the body is the backslash, \<open>close\<close> is \<open>]\<close>,
  \<open>escaped\<close> is false, and the rule consumes nothing more; so on \<open>[\<close>, backslash,
  \<open>]a]\<close> it leaves \<open>a]\<close> to the text rule. Were the scan entered, it would raise an
  error at the first \<open>]\<close> (the assignment to the constant \<open>close\<close>). As the code
  stands the rule never raises an error, and where the input starts with \<open>[\<close> and no
  \<open>]\<close> occurs after it, the rule returns a bracket node with \<open>escaped\<close> true.
\<close>

theorem bracket_rule_unterminated:
  "bracket_rule p \<noteq> Inl e
   \<and> (input p = CHR ''['' # backslash # CHR '']'' # r \<longrightarrow>
       bracket_rule p
         = Inr (Some (bracket_node [CHR ''['', backslash, CHR '']''] [] [backslash] '']''),
                p\<lparr>parsed := parsed p @ [CHR ''['', backslash, CHR '']''], input := r\<rparr>))
   \<and> (input p = CHR ''['' # r \<and> CHR '']'' \<notin> set r \<longrightarrow>
       (\<exists>n p'. bracket_rule p = Inr (Some n, p') \<and> ntype n = ty_bracket
          \<and> escaped n = Some True \<and> close n \<noteq> Some '']''))
   \<and> (re_bracket (input p) = Some (m0, m1, m2, m3) \<longrightarrow>
       \<not> (replace_bs (str_or m2 []) = []
          \<and> take 2 (drop (length m0) (input p)) = [backslash, CHR '']'']))
   \<and> (CHR '']'' \<notin> set s \<longrightarrow> bracket_scan (s @ CHR '']'' # t) i q = Inl AssignToConstant)
   \<and> map_sum id (\<lambda>(n, q). (map_option inner n, map_option close n, map_option escaped n, input q))
       (bracket_rule (init_parser no_options [CHR ''['', backslash, CHR '']'', CHR ''a'', CHR '']'']))
     = Inr (Some (Some [backslash]), Some (Some '']''), Some (Some False), ''a]'')
   \<and> summary (tokenize no_options [CHR ''['', backslash, CHR '']'', CHR ''a'', CHR '']''])
     = Inr [(ty_bracket, [CHR ''['', backslash, CHR '']'']), (ty_text, ''a]'')]"
proof (intro conjI impI)
  show "bracket_rule p \<noteq> Inl e"
    by (simp add: bracket_rule_eq split: option.splits)
  show "map_sum id (\<lambda>(n, q). (map_option inner n, map_option close n, map_option escaped n, input q))
       (bracket_rule (init_parser no_options [CHR ''['', backslash, CHR '']'', CHR ''a'', CHR '']'']))
     = Inr (Some (Some [backslash]), Some (Some '']''), Some (Some False), ''a]'')"
    by code_simp
  show "summary (tokenize no_options [CHR ''['', backslash, CHR '']'', CHR ''a'', CHR '']''])
     = Inr [(ty_bracket, [CHR ''['', backslash, CHR '']'']), (ty_text, ''a]'')]"
    by code_simp
next
  assume "input p = CHR ''['' # backslash # CHR '']'' # r"
  then show "bracket_rule p
         = Inr (Some (bracket_node [CHR ''['', backslash, CHR '']''] [] [backslash] '']''),
                p\<lparr>parsed := parsed p @ [CHR ''['', backslash, CHR '']''], input := r\<rparr>)"
    by (simp add: bracket_rule_eq re_bracket_def starts_with_def bracket_g1_escaped_close
        str_or_def truthy_def updatePosition_def consume_def)
next
  assume a: "input p = CHR ''['' # r \<and> CHR '']'' \<notin> set r"
  then obtain m0 m1 m2 m3 where m: "re_bracket (input p) = Some (m0, m1, m2, m3)"
    using re_bracket_open [of r] by (cases "re_bracket (input p)") auto
  with a have "str_or m3 [] \<noteq> '']''"
    by (auto dest: re_bracket_close)
  with m show "\<exists>n p'. bracket_rule p = Inr (Some n, p') \<and> ntype n = ty_bracket
          \<and> escaped n = Some True \<and> close n \<noteq> Some '']''"
    by (simp add: bracket_rule_eq bracket_node_def mk_node_def)
next
  assume "re_bracket (input p) = Some (m0, m1, m2, m3)"
  then show "\<not> (replace_bs (str_or m2 []) = []
      \<and> take 2 (drop (length m0) (input p)) = [backslash, CHR '']''])"
    by (rule re_bracket_no_edge)
next
  assume "CHR '']'' \<notin> set s"
  then show "bracket_scan (s @ CHR '']'' # t) i q = Inl AssignToConstant"
    by (rule bracket_scan_close)
qed

theorem bracket_rule_unterminated_witness:
  "input (init_parser no_options ''[abc'') = CHR ''['' # ''abc''
   \<and> CHR '']'' \<notin> set ''abc''
   \<and> (\<exists>n p'. bracket_rule (init_parser no_options ''[abc'') = Inr (Some n, p')
         \<and> ntype n = ty_bracket \<and> escaped n = Some True \<and> close n \<noteq> Some '']'')
   \<and> bracket_rule (init_parser no_options [CHR ''['', backslash, CHR '']'', CHR ''a'', CHR '']''])
       = Inr (Some (bracket_node [CHR ''['', backslash, CHR '']''] [] [backslash] '']''),
              (init_parser no_options [CHR ''['', backslash, CHR '']'', CHR ''a'', CHR '']''])
                \<lparr>parsed := [CHR ''['', backslash, CHR '']''], input := ''a]''\<rparr>)
   \<and> bracket_scan ''ab]c'' [] (init_parser no_options ''ab]c'') = Inl AssignToConstant"
  using bracket_rule_unterminated [where p = "init_parser no_options ''[abc''" and r = "''abc''"]
    bracket_rule_unterminated
      [where p = "init_parser no_options [CHR ''['', backslash, CHR '']'', CHR ''a'', CHR '']'']"
         and r = "''a]''"]
    bracket_rule_unterminated
      [where s = "''ab''" and t = "''c''" and i = "[]" and q = "init_parser no_options ''ab]c''"]
  by (simp add: init_parser_def)

subsection \<open>Progress\<close>

lemma takes_shorter: "takes m s \<Longrightarrow> length (drop (length m) s) < length s"
  by (cases m; cases s) (auto simp: takes_def)

lemma backtrack_bounds: "backtrack lo k ok s = Some j \<Longrightarrow> lo \<le> j \<and> j \<le> k"
  by (induction k) (auto split: if_splits)

lemma run_le: "run P s \<le> length s"
  by (simp add: run_def length_takeWhile_le)

lemma take_takes: "0 < k \<Longrightarrow> k \<le> run P s \<Longrightarrow> takes (take k s) s"
  using run_le [of P s] by (cases s) (auto simp: takes_def)

lemma re_prefix_takes: "re_prefix s = Some m \<Longrightarrow> takes m s"
  by (induction s rule: re_prefix.induct) (auto simp: takes_def split: if_splits)

lemma re_escape_takes: "re_escape s = Some (m, m1, m2) \<Longrightarrow> takes m s"
  by (cases s) (auto simp: re_escape_def takes_def starts_with_def ahead_in_def split: if_splits)

lemma re_quote_takes: "re_quote s = Some q \<Longrightarrow> takes [q] s"
  by (cases s) (auto simp: re_quote_def takes_def)

lemma re_not_takes: "re_not s = Some m \<Longrightarrow> takes m s"
  by (auto simp: re_not_def Let_def split: if_splits intro!: take_takes)

lemma re_dot_takes: "re_dot s = Some m \<Longrightarrow> takes m s"
  by (auto simp: re_dot_def Let_def split: if_splits intro!: take_takes)

lemma re_plus_takes: "re_plus s = Some m \<Longrightarrow> takes m s"
  by (cases s) (auto simp: re_plus_def takes_def starts_with_def split: if_splits)

lemma re_qmark_takes: "re_qmark s = Some m \<Longrightarrow> takes m s"
  by (auto simp: re_qmark_def dest!: backtrack_bounds intro!: take_takes)

lemma re_globstar_takes: "re_globstar s = Some m \<Longrightarrow> takes m s"
  by (cases s) (auto simp: re_globstar_def takes_def starts_with_def split: if_splits)

lemma re_star_takes: "re_star s = Some m \<Longrightarrow> takes m s"
proof (cases s)
  case Nil
  assume "re_star s = Some m"
  with Nil show ?thesis
    by (simp add: re_star_def starts_with_def run_def)
next
  case (Cons c r)
  assume a: "re_star s = Some m"
  show ?thesis
  proof (cases "backtrack 3 (run (\<lambda>c. c = CHR ''*'') s) (\<lambda>r. \<not> ahead_in ''('' r) s")
    case None
    with a Cons show ?thesis
      by (auto simp: re_star_def takes_def split: if_splits)
  next
    case (Some k)
    then have "3 \<le> k \<and> k \<le> run (\<lambda>c. c = CHR ''*'') s"
      by (rule backtrack_bounds)
    then have "takes (take k s) s"
      by (intro take_takes) auto
    with a Some Cons show ?thesis
      by (auto simp: re_star_def takes_def split: if_splits)
  qed
qed

lemma re_slash_takes: "re_slash s = Some m \<Longrightarrow> takes m s"
  by (cases s) (auto simp: re_slash_def takes_def starts_with_def split: if_splits)

lemma re_backslash_takes: "re_backslash s = Some m \<Longrightarrow> takes m s"
  by (cases s) (auto simp: re_backslash_def takes_def starts_with_def split: if_splits)

lemma re_square_takes: "re_square s = Some (m, m1) \<Longrightarrow> takes m s"
  by (induction s rule: re_square.induct) (auto simp: takes_def split: if_splits)

lemma re_bracket_takes: "re_bracket s = Some (m, m1, m2, m3) \<Longrightarrow> takes m s"
  by (cases s) (auto simp: re_bracket_def takes_def starts_with_def split: if_splits option.splits)

lemma re_text_takes: "re_text s = Some m \<Longrightarrow> takes m s"
  by (cases s) (auto simp: re_text_def regex_not_def takes_def starts_with_def Let_def split: if_splits)

lemma suffix_drop_shorter:
  "takes m s \<Longrightarrow> suffix t (drop (length m) s) \<Longrightarrow> length t < length s"
  using takes_shorter suffix_length_le by fastforce

lemma rules_consume: "\<forall>r \<in> set rules. consumes r"
proof -
  have "consumes (lift prefix_rule)"
    by (auto simp: consumes_def lift_def prefix_rule_def Let_def split: option.splits if_splits
        dest!: re_prefix_takes takes_shorter)
  moreover have "consumes (lift escape_rule)"
    by (auto simp: consumes_def lift_def escape_rule_def Let_def split: option.splits if_splits
        dest!: re_escape_takes takes_shorter)
  moreover have "consumes (lift quoted_rule)"
    by (auto simp: consumes_def lift_def quoted_rule_def Let_def split: option.splits if_splits
        dest!: re_quote_takes takes_shorter)
  moreover have "consumes (lift not_rule)"
    by (auto simp: consumes_def lift_def not_rule_def Let_def split: option.splits if_splits
        dest!: re_not_takes takes_shorter)
  moreover have "consumes (lift dot_rule)"
    by (auto simp: consumes_def lift_def dot_rule_def Let_def split: option.splits if_splits
        dest!: re_dot_takes takes_shorter)
  moreover have "consumes (lift plus_rule)"
    by (auto simp: consumes_def lift_def plus_rule_def Let_def split: option.splits if_splits
        dest!: re_plus_takes takes_shorter)
  moreover have "consumes (lift qmark_rule)"
    by (auto simp: consumes_def lift_def qmark_rule_def Let_def split: option.splits if_splits
        dest!: re_qmark_takes takes_shorter)
  moreover have "consumes (lift globstar_rule)"
    using fold_globstars_suffix
    by (auto simp: consumes_def lift_def globstar_rule_def Let_def split: option.splits if_splits
        dest!: re_globstar_takes intro: suffix_drop_shorter)
  moreover have "consumes (lift star_rule)"
    by (auto simp: consumes_def lift_def star_rule_def Let_def split: option.splits if_splits
        dest!: re_star_takes takes_shorter)
  moreover have "consumes (lift slash_rule)"
    by (auto simp: consumes_def lift_def slash_rule_def Let_def split: option.splits if_splits
        dest!: re_slash_takes takes_shorter)
  moreover have "consumes (lift backslash_rule)"
    by (auto simp: consumes_def lift_def backslash_rule_def Let_def split: option.splits if_splits
        dest!: re_backslash_takes takes_shorter)
  moreover have "consumes (lift square_rule)"
    by (auto simp: consumes_def lift_def square_rule_def Let_def split: option.splits if_splits
        dest!: re_square_takes takes_shorter)
  moreover have "consumes bracket_rule"
    by (auto simp: consumes_def bracket_rule_eq Let_def split: option.splits if_splits
        dest!: re_bracket_takes takes_shorter)
  moreover have "consumes (lift text_rule)"
    by (auto simp: consumes_def lift_def text_rule_def Let_def split: option.splits if_splits
        dest!: re_text_takes takes_shorter)
  ultimately show ?thesis by (simp add: rules_def)
qed


lemma run_rules_consume:
  "\<forall>r \<in> set rs. consumes r \<and> shrinks r \<Longrightarrow> run_rules rs p = Inr (x, p')
     \<Longrightarrow> length (input p') < length (input p) \<or> (x = None \<and> p' = p)"
proof (induction rs arbitrary: p)
  case Nil
  then show ?case by simp
next
  case (Cons r rs)
  show ?case
  proof (cases "r p")
    case (Inl e)
    with Cons.prems show ?thesis by simp
  next
    case (Inr y)
    obtain n p1 where y: "y = (n, p1)" by (cases y)
    from Cons.prems(1) Inr y have c1: "length (input p1) < length (input p) \<or> (n = None \<and> p1 = p)"
      by (auto simp: consumes_def)
    show ?thesis
    proof (cases n)
      case None
      with Inr y Cons.prems have rr: "run_rules rs p1 = Inr (x, p')" by simp
      with Cons.IH Cons.prems(1)
      have c2: "length (input p') < length (input p1) \<or> (x = None \<and> p' = p1)" by simp
      from rr Cons.prems(1) have "suffix (input p') (input p1)"
        by (intro run_rules_suffix [of rs]) auto
      then have "length (input p') \<le> length (input p1)"
        by (rule suffix_length_le)
      with c1 c2 show ?thesis by auto
    next
      case (Some nd)
      with Inr y Cons.prems have "p' = p1" "x = n" by simp_all
      with c1 Some show ?thesis by simp
    qed
  qed
qed

lemma run_rules_no_error:
  "\<forall>r \<in> set rs. \<forall>q. r q \<noteq> Inl e \<Longrightarrow> run_rules rs p \<noteq> Inl e"
proof (induction rs arbitrary: p)
  case Nil
  then show ?case by simp
next
  case (Cons r rs)
  then show ?case
    by (cases "r p") (auto split: option.splits)
qed

lemma rules_no_error: "run_rules rules p \<noteq> Inl e"
proof (rule run_rules_no_error)
  have "bracket_rule q \<noteq> Inl e" for q
    by (simp add: bracket_rule_eq split: option.splits)
  then show "\<forall>r \<in> set rules. \<forall>q. r q \<noteq> Inl e"
    by (simp add: rules_def lift_def)
qed

lemma rules_progress:
  assumes "run_rules rules p = Inr (x, p')"
  shows "length (input p') < length (input p) \<or> (x = None \<and> p' = p)"
  using assms rules_consume rules_shrink run_rules_consume by blast

lemma sets_updatePosition [simp]: "sets (updatePosition m p) = sets p"
  by (simp add: updatePosition_def consume_def)

lemma sets_consume [simp]: "sets (consume n p) = sets p"
  by (simp add: consume_def)

lemma sets_push [simp]: "sets (push tok p) = sets p"
  by (simp add: push_def split: option.splits)

lemma rules_keep_sets: "\<forall>r \<in> set rules. keeps_sets r"
proof -
  have "keeps_sets bracket_rule"
    by (auto simp: keeps_sets_def bracket_rule_eq split: option.splits)
  then show ?thesis
    by (auto simp: rules_def keeps_sets_def lifted_rule_defs Let_def
        split: option.splits if_splits)
qed

lemma run_rules_sets:
  "\<forall>r \<in> set rs. keeps_sets r \<Longrightarrow> run_rules rs p = Inr (x, p') \<Longrightarrow> sets p' = sets p"
proof (induction rs arbitrary: p)
  case Nil
  then show ?case by simp
next
  case (Cons r rs)
  show ?case
  proof (cases "r p")
    case (Inl e)
    with Cons.prems show ?thesis by simp
  next
    case (Inr y)
    obtain n p1 where y: "y = (n, p1)" by (cases y)
    from Cons.prems(1) Inr y have s1: "sets p1 = sets p"
      by (auto simp: keeps_sets_def)
    show ?thesis
    proof (cases n)
      case None
      with Inr y Cons.prems have "run_rules rs p1 = Inr (x, p')" by simp
      with Cons.IH Cons.prems(1) have "sets p' = sets p1" by simp
      with s1 show ?thesis by simp
    next
      case (Some nd)
      with Inr y Cons.prems have "p' = p1" by simp
      with s1 show ?thesis by simp
    qed
  qed
qed

lemma rules_sets: "run_rules rules p = Inr (x, p') \<Longrightarrow> sets p' = sets p"
  using run_rules_sets rules_keep_sets by blast

lemma parse_result:
  "case parse p of
     Inr q \<Rightarrow> input q = []
   | Inl e \<Rightarrow> \<exists>q. e = NoParser (input q) \<and> input q \<noteq> [] \<and> suffix (input q) (input p)
              \<and> sets q = sets p \<and> run_rules rules q = Inr (None, q)"
proof (induction p rule: parse_cases)
  case (Nil p)
  then show ?case by simp
next
  case (error p e)
  then show ?case
    by (simp add: rules_no_error)
next
  case (stuck p tok p1)
  from stuck(2) have "length (input p1) < length (input p) \<or> (tok = None \<and> p1 = p)"
    by (rule rules_progress)
  with stuck have "run_rules rules p = Inr (None, p)" by auto
  with stuck(1) show ?case by auto
next
  case (step p tok p1)
  from step(2) have s: "suffix (input p1) (input p)" by (rule rules_suffix)
  from step(2) have t: "sets p1 = sets p" by (rule rules_sets)
  show ?case
  proof (cases "parse (push tok p1)")
    case (Inl e)
    with step(4) obtain q where "e = NoParser (input q)" "input q \<noteq> []"
      "suffix (input q) (input p1)" "sets q = sets p1" "run_rules rules q = Inr (None, q)"
      by auto
    with s t Inl show ?thesis
      using suffix_order.trans by auto
  next
    case (Inr q)
    with step(4) show ?thesis by simp
  qed
qed

lemma input_init_parser: "input (init_parser os pat) = pat"
  by (simp add: init_parser_def)

lemma text_rule_plain:
  assumes "\<not> is_inside p bracket" and "input p = c # r" and "c \<notin> set NOT_REGEX"
    and "\<not> line_terminator c"
  shows "\<exists>m. m \<noteq> [] \<and> input p = m @ input (snd (text_rule p))
    \<and> fst (text_rule p) = Some (mk_node ty_text m)"
proof -
  let ?P = "\<lambda>c. c \<notin> set NOT_REGEX \<and> any_char c"
  let ?m = "takeWhile ?P (input p)"
  from assms have "c \<noteq> CHR ''*''"
    by (auto simp: NOT_REGEX_def)
  with assms have "re_text (input p) = regex_not (input p)"
    by (simp add: re_text_def starts_with_def)
  moreover from assms have m: "?m \<noteq> []"
    by (simp add: any_char_def)
  ultimately have "re_text (input p) = Some ?m"
    by (simp add: regex_not_def Let_def)
  with assms(1) m have "text_rule p = (Some (mk_node ty_text ?m), updatePosition ?m p)"
    by (simp add: text_rule_def Let_def)
  moreover have "input p = ?m @ drop (length ?m) (input p)"
    by (metis takeWhile_dropWhile_id dropWhile_eq_drop)
  ultimately show ?thesis
    using m by (intro exI [of _ ?m]) simp
qed

lemma backtrack_None: "backtrack lo k ok s = None \<Longrightarrow> lo \<le> j \<Longrightarrow> j \<le> k \<Longrightarrow> \<not> ok (drop j s)"
proof (induction k)
  case 0
  then show ?case by (auto split: if_splits)
next
  case (Suc k)
  then show ?case
    by (cases "j = Suc k") (auto split: if_splits)
qed

lemma re_prefix_head: "c \<noteq> CHR ''.'' \<Longrightarrow> re_prefix (c # r) = None"
  by (cases r) auto

lemma re_square_head: "c \<noteq> CHR ''['' \<Longrightarrow> re_square (c # r) = None"
  by (cases r; cases "tl r") auto

lemma all_fail_stuck:
  assumes "all_fail s"
  shows "no_rule_input s"
proof (cases s)
  case Nil
  then show ?thesis by (simp add: no_rule_input_def)
next
  case (Cons c r)
  show ?thesis
  proof (cases "line_terminator c")
    case True
    with Cons show ?thesis by (simp add: no_rule_input_def)
  next
    case False
    from assms Cons have t: "re_text (c # r) = None" by (simp add: all_fail_def)
    with False have "c \<in> set NOT_REGEX"
      by (auto simp: re_text_def regex_not_def any_char_def Let_def split: if_splits)
    then have "c = CHR ''['' \<or> c = CHR ''!'' \<or> c = CHR ''*'' \<or> c = CHR ''+''
      \<or> c = CHR ''?'' \<or> c = CHR ''$'' \<or> c = CHR ''^'' \<or> c = dquote \<or> c = squote
      \<or> c = CHR ''.'' \<or> c = backslash \<or> c = CHR ''/''"
      by (simp add: NOT_REGEX_def)
    then show ?thesis
    proof (elim disjE)
      assume 1: "c = CHR ''[''"
      with assms Cons show ?thesis
        using re_bracket_open [of r] by (simp add: all_fail_def)
    next
      assume 2: "c = CHR ''!''"
      with assms Cons show ?thesis
        by (simp add: all_fail_def re_not_def run_def Let_def)
    next
      assume 3: "c = CHR ''*''"
      from assms Cons 3 have a: "re_star (CHR ''*'' # r) = None" "re_globstar (CHR ''*'' # r) = None"
        by (simp_all add: all_fail_def)
      show ?thesis
      proof (cases r)
        case Nil
        with a show ?thesis by (simp add: re_star_def starts_with_def ahead_in_def)
      next
        case r: (Cons d r2)
        show ?thesis
        proof (cases "d = CHR ''(''")
          case True
          with t 3 r have "\<not> ahead_any r2"
            by (auto simp: re_text_def starts_with_def split: if_splits)
          with True 3 r Cons show ?thesis
            by (simp add: no_rule_input_def starts_with_def)
        next
          case nd: False
          show ?thesis
          proof (cases "d = CHR ''*''")
            case False
            with nd a r show ?thesis
              by (simp add: re_star_def starts_with_def ahead_in_def)
          next
            case True
            with a(1) r have c: "ahead_in ''(/'' r2 \<or> r2 = []"
              by (auto simp: re_star_def starts_with_def ahead_in_def split: if_splits option.splits)
            from a(1) r True have d: "\<not> starts_with ''('' r2"
              by (auto simp: re_star_def starts_with_def ahead_in_def split: if_splits option.splits list.splits)
            from c d have "r2 = [] \<or> (\<exists>t. r2 = CHR ''/'' # t)"
              by (cases r2) (auto simp: ahead_in_def starts_with_def)
            with a(2) r True show ?thesis
              by (auto simp: re_globstar_def starts_with_def ahead_in_def)
          qed
        qed
      qed
    next
      assume 4: "c = CHR ''+''"
      with assms Cons show ?thesis
        by (cases r) (auto simp: all_fail_def re_plus_def starts_with_def ahead_in_def no_rule_input_def split: if_splits)
    next
      assume 5: "c = CHR ''?''"
      from assms Cons 5 have "backtrack 1 (run (\<lambda>c. c = CHR ''?'') (CHR ''?'' # r)) (\<lambda>r. \<not> ahead_in ''('' r) (CHR ''?'' # r) = None"
        by (simp add: all_fail_def re_qmark_def)
      then have "\<not> \<not> ahead_in ''('' (drop 1 (CHR ''?'' # r))"
        by (rule backtrack_None) (simp_all add: run_def)
      with 5 Cons show ?thesis
        by (cases r) (auto simp: ahead_in_def no_rule_input_def starts_with_def)
    next
      assume 6: "c = CHR ''$''"
      with assms Cons show ?thesis
        by (simp add: all_fail_def re_escape_def starts_with_def ahead_in_def)
    next
      assume 7: "c = CHR ''^''"
      with assms Cons show ?thesis
        by (simp add: all_fail_def re_escape_def starts_with_def ahead_in_def)
    next
      assume 8: "c = dquote"
      with assms Cons show ?thesis
        by (simp add: all_fail_def re_quote_def)
    next
      assume 9: "c = squote"
      with assms Cons show ?thesis
        by (simp add: all_fail_def re_quote_def)
    next
      assume 10: "c = CHR ''.''"
      with assms Cons show ?thesis
        by (simp add: all_fail_def re_dot_def run_def Let_def)
    next
      assume 11: "c = backslash"
      with assms Cons have "re_escape (backslash # r) = None" "re_backslash (backslash # r) = None"
        by (simp_all add: all_fail_def)
      then show ?thesis
        by (cases r)
          (auto simp: re_escape_def re_backslash_def starts_with_def ahead_in_def ahead_any_def
            any_char_def line_terminator_def split: if_splits)
    next
      assume 12: "c = CHR ''/''"
      with assms Cons show ?thesis
        by (simp add: all_fail_def re_slash_def starts_with_def)
    qed
  qed
qed


lemma stuck_all_fail:
  assumes "no_rule_input s"
  shows "all_fail s \<and> re_prefix s = None \<and> re_square s = None"
proof (cases s)
  case Nil
  then show ?thesis
    by (simp add: all_fail_def re_defs re_bracket_def)
next
  case (Cons c r)
  with assms consider "line_terminator c"
    | "c = CHR ''+''" "starts_with ''('' r" | "c = CHR ''?''" "starts_with ''('' r"
    | "c = CHR ''*''" "starts_with ''('' r" "\<not> ahead_any (drop 1 r)"
    by (auto simp: no_rule_input_def)
  then show ?thesis
  proof cases
    case 1
    then have "c = CHR 0x0A \<or> c = CHR 0x0D"
      by (simp add: line_terminator_def)
    then show ?thesis
      using Cons
      by (elim disjE)
        (simp_all add: all_fail_def re_defs re_bracket_def re_prefix_head re_square_head
          any_char_def line_terminator_def)
  next
    case 2
    then obtain t where "r = CHR ''('' # t"
      by (cases r) (auto simp: starts_with_def)
    with 2 Cons show ?thesis
      by (simp add: all_fail_def re_defs re_bracket_def re_prefix_head re_square_head)
  next
    case 3
    then obtain t where "r = CHR ''('' # t"
      by (cases r) (auto simp: starts_with_def)
    with 3 Cons show ?thesis
      by (simp add: all_fail_def re_defs re_bracket_def re_prefix_head re_square_head)
  next
    case 4
    then obtain t where "r = CHR ''('' # t"
      by (cases r) (auto simp: starts_with_def)
    with 4 Cons show ?thesis
      by (simp add: all_fail_def re_defs re_bracket_def re_prefix_head re_square_head
          numeral_2_eq_2 numeral_3_eq_3)
  qed
qed

lemma all_fail_rules:
  assumes "all_fail (input p)" and "re_prefix (input p) = None" and "re_square (input p) = None"
  shows "run_rules rules p = Inr (None, p)"
proof -
  have "bracket_rule p = Inr (None, p)"
    using assms by (simp add: bracket_rule_def all_fail_def)
  then show ?thesis
    using assms by (simp add: rules_def lifted_rule_defs all_fail_def)
qed

lemma run_rules_nothing:
  "\<forall>r \<in> set rs. consumes r \<and> shrinks r \<Longrightarrow> run_rules rs p = Inr (None, p)
     \<Longrightarrow> \<forall>r \<in> set rs. r p = Inr (None, p)"
proof (induction rs)
  case Nil
  then show ?case by simp
next
  case (Cons r rs)
  from Cons.prems(2) obtain n p1 where r: "r p = Inr (n, p1)"
    by (cases "r p") (auto split: prod.splits)
  with Cons.prems(2) have n: "n = None" and rr: "run_rules rs p1 = Inr (None, p)"
    by (auto split: option.splits)
  from rr Cons.prems(1) have "suffix (input p) (input p1)"
    by (intro run_rules_suffix [of rs]) auto
  then have "length (input p) \<le> length (input p1)"
    by (rule suffix_length_le)
  moreover from r Cons.prems(1) have "length (input p1) < length (input p) \<or> (n = None \<and> p1 = p)"
    by (auto simp: consumes_def)
  ultimately have "p1 = p" by auto
  with r n rr Cons show ?case by simp
qed

lemma rules_nothing_all_fail:
  assumes "run_rules rules p = Inr (None, p)" and "\<not> is_inside p bracket"
  shows "all_fail (input p)"
proof -
  from assms(1) have a: "\<forall>r \<in> set rules. r p = Inr (None, p)"
    using rules_consume rules_shrink by (intro run_rules_nothing) auto
  have "re_escape (input p) = None"
    using a assms(2) by (auto simp: rules_def lift_def escape_rule_def split: option.splits if_splits)
  moreover have "re_quote (input p) = None"
    using a by (auto simp: rules_def lift_def quoted_rule_def Let_def split: option.splits if_splits)
  moreover have "re_not (input p) = None"
    using a by (auto simp: rules_def lift_def not_rule_def Let_def split: option.splits if_splits)
  moreover have "re_dot (input p) = None"
    using a by (auto simp: rules_def lift_def dot_rule_def Let_def split: option.splits if_splits)
  moreover have "re_plus (input p) = None"
    using a by (auto simp: rules_def lift_def plus_rule_def Let_def split: option.splits if_splits)
  moreover have "re_qmark (input p) = None"
    using a by (auto simp: rules_def lift_def qmark_rule_def Let_def split: option.splits if_splits)
  moreover have "re_globstar (input p) = None"
    using a by (auto simp: rules_def lift_def globstar_rule_def Let_def split: option.splits if_splits)
  moreover have "re_star (input p) = None"
    using a by (auto simp: rules_def lift_def star_rule_def Let_def split: option.splits if_splits)
  moreover have "re_slash (input p) = None"
    using a by (auto simp: rules_def lift_def slash_rule_def Let_def split: option.splits if_splits)
  moreover have "re_backslash (input p) = None"
    using a by (auto simp: rules_def lift_def backslash_rule_def Let_def split: option.splits if_splits)
  moreover have "re_bracket (input p) = None"
    using a by (auto simp: rules_def bracket_rule_eq split: option.splits if_splits)
  moreover have "re_text (input p) = None"
    using a assms(2)
    by (auto simp: rules_def lift_def text_rule_def Let_def takes_def
        split: option.splits if_splits dest: re_text_takes)
  ultimately show ?thesis
    by (simp add: all_fail_def)
qed

lemma rules_nothing_iff:
  "\<not> is_inside p bracket \<Longrightarrow> (run_rules rules p = Inr (None, p)) = no_rule_input (input p)"
  using rules_nothing_all_fail all_fail_stuck stuck_all_fail all_fail_rules by blast


lemma parse_complete:
  "\<not> is_inside p bracket \<and> (\<forall>u. suffix u (input p) \<and> u \<noteq> [] \<longrightarrow> \<not> no_rule_input u)
     \<longrightarrow> (\<exists>q. parse p = Inr q \<and> input q = [])"
proof (induction p rule: parse_cases)
  case (Nil p)
  then show ?case by simp
next
  case (error p e)
  then show ?case by (simp add: rules_no_error)
next
  case (stuck p tok p1)
  show ?case
  proof (intro impI)
    assume a: "\<not> is_inside p bracket \<and> (\<forall>u. suffix u (input p) \<and> u \<noteq> [] \<longrightarrow> \<not> no_rule_input u)"
    from stuck(2) have "length (input p1) < length (input p) \<or> (tok = None \<and> p1 = p)"
      by (rule rules_progress)
    with stuck have "run_rules rules p = Inr (None, p)" by auto
    with a have "no_rule_input (input p)" by (simp add: rules_nothing_iff)
    with a stuck(1) have False by auto
    then show "\<exists>q. Inl (NoParser (input p)) = Inr q \<and> input q = []" ..
  qed
next
  case (step p tok p1)
  show ?case
  proof (intro impI)
    assume a: "\<not> is_inside p bracket \<and> (\<forall>u. suffix u (input p) \<and> u \<noteq> [] \<longrightarrow> \<not> no_rule_input u)"
    from step(2) have s: "suffix (input p1) (input p)" by (rule rules_suffix)
    from step(2) have "sets p1 = sets p" by (rule rules_sets)
    with a have "\<not> is_inside (push tok p1) bracket" by (simp add: is_inside_def)
    moreover from a s have "\<forall>u. suffix u (input (push tok p1)) \<and> u \<noteq> [] \<longrightarrow> \<not> no_rule_input u"
      using suffix_order.trans by auto
    ultimately show "\<exists>q. parse (push tok p1) = Inr q \<and> input q = []"
      using step(4) by blast
  qed
qed

lemma no_paren_no_stuck:
  assumes "CHR ''('' \<notin> set pat" and "\<forall>c \<in> set pat. \<not> line_terminator c"
    and "suffix u pat" and "u \<noteq> []"
  shows "\<not> no_rule_input u"
proof -
  from assms(3) have "set u \<subseteq> set pat" by (rule set_mono_suffix)
  with assms(1,2,4) show ?thesis
    by (cases u; cases "tl u") (auto simp: no_rule_input_def starts_with_def)
qed

text \<open>
  Claim C1, as amended. Tokenization is a total function of the configuration and the
  pattern. It ends with the whole input consumed, or with the error that no rule is
  registered for the input left: a suffix of the pattern, not empty, of one of the forms
  of \<open>no_rule_input\<close>, on which the rule set returns nothing and changes nothing. One
  query of the rule set leaves a suffix of the input, and makes it strictly shorter
  unless it returns nothing and changes nothing; outside a bracket context it returns
  nothing and changes nothing exactly on the inputs of \<open>no_rule_input\<close>. So a
  pattern none of whose suffixes has such a form is consumed whole: in particular every
  pattern without \<open>(\<close> and without a line terminator. Outside a bracket context the
  text rule accepts at least one character whenever the input starts with a character
  that is not a line terminator and not one of \<open>NOT_REGEX\<close>.
\<close>

theorem tokenize_progress:
  "(case tokenize os pat of
      Inr q \<Rightarrow> input q = []
    | Inl e \<Rightarrow> \<exists>q. e = NoParser (input q) \<and> input q \<noteq> [] \<and> suffix (input q) pat
               \<and> no_rule_input (input q) \<and> run_rules rules q = Inr (None, q))
   \<and> (run_rules rules p = Inr (tok, p') \<longrightarrow>
        suffix (input p') (input p)
        \<and> (length (input p') < length (input p) \<or> (tok = None \<and> p' = p)))
   \<and> (\<not> is_inside p bracket \<longrightarrow>
        (run_rules rules p = Inr (None, p)) = no_rule_input (input p))
   \<and> ((\<forall>u. suffix u pat \<and> u \<noteq> [] \<longrightarrow> \<not> no_rule_input u) \<longrightarrow>
        (\<exists>q. tokenize os pat = Inr q \<and> input q = []))
   \<and> (CHR ''('' \<notin> set pat \<and> (\<forall>c \<in> set pat. \<not> line_terminator c) \<longrightarrow>
        (\<exists>q. tokenize os pat = Inr q \<and> input q = []))
   \<and> (\<not> is_inside p bracket \<and> input p = c # r \<and> c \<notin> set NOT_REGEX \<and> \<not> line_terminator c \<longrightarrow>
        (\<exists>m. m \<noteq> [] \<and> input p = m @ input (snd (text_rule p))
           \<and> fst (text_rule p) = Some (mk_node ty_text m)))"
proof (intro conjI impI)
  have i: "\<not> is_inside (init_parser os pat) bracket"
    by (simp add: init_parser_def is_inside_def)
  show "case tokenize os pat of
      Inr q \<Rightarrow> input q = []
    | Inl e \<Rightarrow> \<exists>q. e = NoParser (input q) \<and> input q \<noteq> [] \<and> suffix (input q) pat
               \<and> no_rule_input (input q) \<and> run_rules rules q = Inr (None, q)"
  proof (cases "tokenize os pat")
    case (Inr q)
    with parse_result [of "init_parser os pat"] show ?thesis
      by (simp add: tokenize_def)
  next
    case (Inl e)
    with parse_result [of "init_parser os pat"] obtain q
      where q: "e = NoParser (input q)" "input q \<noteq> []" "suffix (input q) pat"
        "sets q = sets (init_parser os pat)" "run_rules rules q = Inr (None, q)"
      by (auto simp: tokenize_def input_init_parser)
    from q(4) i have "\<not> is_inside q bracket"
      by (simp add: is_inside_def)
    with q(5) have "no_rule_input (input q)"
      by (simp add: rules_nothing_iff)
    with q Inl show ?thesis
      by auto
  qed
  show "\<exists>q. tokenize os pat = Inr q \<and> input q = []"
    if "\<forall>u. suffix u pat \<and> u \<noteq> [] \<longrightarrow> \<not> no_rule_input u"
    using that i parse_complete [of "init_parser os pat"]
    by (simp add: tokenize_def input_init_parser)
  show "\<exists>q. tokenize os pat = Inr q \<and> input q = []"
    if a: "CHR ''('' \<notin> set pat \<and> (\<forall>c \<in> set pat. \<not> line_terminator c)"
  proof -
    from a have "\<forall>u. suffix u pat \<and> u \<noteq> [] \<longrightarrow> \<not> no_rule_input u"
      using no_paren_no_stuck [of pat] by blast
    then show ?thesis
      using i parse_complete [of "init_parser os pat"]
      by (simp add: tokenize_def input_init_parser)
  qed
next
  assume a: "run_rules rules p = Inr (tok, p')"
  then show "suffix (input p') (input p)"
    by (rule rules_suffix)
  from a show "length (input p') < length (input p) \<or> (tok = None \<and> p' = p)"
    by (rule rules_progress)
next
  assume "\<not> is_inside p bracket"
  then show "(run_rules rules p = Inr (None, p)) = no_rule_input (input p)"
    by (rule rules_nothing_iff)
next
  assume "\<not> is_inside p bracket \<and> input p = c # r \<and> c \<notin> set NOT_REGEX \<and> \<not> line_terminator c"
  then show "\<exists>m. m \<noteq> [] \<and> input p = m @ input (snd (text_rule p))
           \<and> fst (text_rule p) = Some (mk_node ty_text m)"
    by (intro text_rule_plain [of p c r]) blast+
qed

theorem tokenize_progress_witness:
  "CHR ''('' \<notin> set ''a/**/[!b]?.{js,ts}''
   \<and> (\<exists>q. tokenize no_options ''a/**/[!b]?.{js,ts}'' = Inr q \<and> input q = [])
   \<and> (\<exists>q. tokenize no_options ''*(a)'' = Inr q \<and> input q = [])
   \<and> (\<exists>q. tokenize no_options ''a+(b)'' = Inl (NoParser (input q)) \<and> input q \<noteq> []
         \<and> suffix (input q) ''a+(b)'' \<and> no_rule_input (input q)
         \<and> run_rules rules q = Inr (None, q))
   \<and> \<not> is_inside (init_parser no_options ''?(a)'') bracket
   \<and> run_rules rules (init_parser no_options ''?(a)'') = Inr (None, init_parser no_options ''?(a)'')
   \<and> \<not> is_inside (init_parser no_options ''ab/c'') bracket
   \<and> CHR ''a'' \<notin> set NOT_REGEX \<and> \<not> line_terminator (CHR ''a'')
   \<and> (\<exists>m. m \<noteq> [] \<and> ''ab/c'' = m @ input (snd (text_rule (init_parser no_options ''ab/c'')))
         \<and> fst (text_rule (init_parser no_options ''ab/c'')) = Some (mk_node ty_text m))"
proof -
  have 0: "CHR ''('' \<notin> set ''a/**/[!b]?.{js,ts}''"
    "\<forall>c \<in> set ''a/**/[!b]?.{js,ts}''. \<not> line_terminator c"
    by (simp_all add: line_terminator_def)
  then have 1: "\<exists>q. tokenize no_options ''a/**/[!b]?.{js,ts}'' = Inr q \<and> input q = []"
    using tokenize_progress [where os = no_options and pat = "''a/**/[!b]?.{js,ts}''"]
    by blast
  have "\<not> no_rule_input u" if "suffix u ''*(a)''" "u \<noteq> []" for u
  proof -
    from that have "u \<in> set (suffixes ''*(a)'')" by (simp only: in_set_suffixes)
    with that(2) show ?thesis
      by (auto simp: no_rule_input_def starts_with_def ahead_any_def any_char_def
          line_terminator_def)
  qed
  then have 2: "\<exists>q. tokenize no_options ''*(a)'' = Inr q \<and> input q = []"
    using tokenize_progress [where os = no_options and pat = "''*(a)''"]
    by blast
  have "case tokenize no_options ''a+(b)'' of Inr q \<Rightarrow> False | Inl e \<Rightarrow> True"
    by code_simp
  then obtain e where "tokenize no_options ''a+(b)'' = Inl e"
    by (cases "tokenize no_options ''a+(b)''") auto
  then have 3: "\<exists>q. tokenize no_options ''a+(b)'' = Inl (NoParser (input q)) \<and> input q \<noteq> []
         \<and> suffix (input q) ''a+(b)'' \<and> no_rule_input (input q)
         \<and> run_rules rules q = Inr (None, q)"
    using tokenize_progress [where os = no_options and pat = "''a+(b)''"] by auto
  have 4: "\<not> is_inside (init_parser no_options ''?(a)'') bracket"
    by (simp add: init_parser_def is_inside_def)
  have "no_rule_input (input (init_parser no_options ''?(a)''))"
    by (simp add: init_parser_def no_rule_input_def starts_with_def)
  with 4 have 5: "run_rules rules (init_parser no_options ''?(a)'')
      = Inr (None, init_parser no_options ''?(a)'')"
    using tokenize_progress [where p = "init_parser no_options ''?(a)''"] by blast
  have 6: "\<not> is_inside (init_parser no_options ''ab/c'') bracket"
    "CHR ''a'' \<notin> set NOT_REGEX" "\<not> line_terminator (CHR ''a'')"
    by (simp_all add: init_parser_def is_inside_def NOT_REGEX_def line_terminator_def)
  then have 7: "\<exists>m. m \<noteq> [] \<and> ''ab/c'' = m @ input (snd (text_rule (init_parser no_options ''ab/c'')))
         \<and> fst (text_rule (init_parser no_options ''ab/c'')) = Some (mk_node ty_text m)"
    using tokenize_progress
      [where p = "init_parser no_options ''ab/c''" and c = "CHR ''a''" and r = "''b/c''"]
    by (simp add: init_parser_def)
  from 0 1 2 3 4 5 6 7 show ?thesis
    by simp
qed

text \<open>
  On the pattern \<open>*(\<close> every rule but the text rule fails and input remains, and the
  text rule accepts nothing: tokenization stops with the error, both characters left.
\<close>

theorem progress_counterexample:
  "summary (tokenize no_options ''*('') = Inl (NoParser ''*('')
   \<and> fst (text_rule (init_parser no_options ''*('')) = None
   \<and> input (snd (text_rule (init_parser no_options ''*(''))) = ''*(''"
  by (intro conjI; code_simp)

subsection \<open>The value of a quoted span\<close>

lemma advance_body_synced: "synced inp sc \<Longrightarrow> synced inp (advance_body inp sc)"
  by (simp add: synced_def advance_body_def scanned_def esc_of_def)

lemma advance_n_synced: "synced inp sc \<Longrightarrow> synced inp (advance_n inp k sc)"
proof (induction inp k sc rule: advance_n.induct)
  case (1 inp sc)
  then show ?case by simp
next
  case (2 inp k sc)
  then have "synced inp (advance_body inp sc)" by (simp add: advance_body_synced)
  with 2 show ?case
    by (simp add: advance_n.simps(2))
qed

lemma advanceTo_loop_go:
  "ch sc \<noteq> None \<Longrightarrow> ch sc \<noteq> Some e
     \<Longrightarrow> advanceTo_loop inp e sc = advanceTo_loop inp e (advance_n inp 1 sc)"
  by (subst advanceTo_loop.simps) auto

lemma advanceTo_loop_stop:
  "ch sc = None \<or> ch sc = Some e \<Longrightarrow> advanceTo_loop inp e sc = sc"
  by (subst advanceTo_loop.simps) auto

lemma advanceTo_loop_synced: "synced inp sc \<Longrightarrow> synced inp (advanceTo_loop inp e sc)"
proof (induction inp e sc rule: advanceTo_loop.induct)
  case (1 inp endChar sc)
  show ?case
  proof (cases "ch sc \<noteq> None \<and> ch sc \<noteq> Some endChar")
    case True
    from 1(2) have "synced inp (advance_n inp 1 sc)" by (rule advance_n_synced)
    with 1(1) True have "synced inp (advanceTo_loop inp endChar (advance_n inp 1 sc))" by simp
    with True show ?thesis by (simp add: advanceTo_loop_go)
  next
    case False
    then have "advanceTo_loop inp endChar sc = sc" by (intro advanceTo_loop_stop) auto
    with 1(2) show ?thesis by simp
  qed
qed

lemma advanceTo_synced: "synced inp (advanceTo inp e)"
  unfolding advanceTo_def
  by (rule advanceTo_loop_synced) (simp add: synced_def scanned_def)

lemma advanceTo_esc:
  "tok_esc (advanceTo inp e) = scanned inp (tok_len (advanceTo inp e) - 1)"
  using advanceTo_synced [of inp e] by (simp add: synced_def)

text \<open>A span without a backslash: the loop stops at the first end character.\<close>

lemma advanceTo_loop_plain:
  assumes "synced inp sc" and "idx sc \<le> n" and "n < length inp" and "inp ! n = e"
    and "e \<noteq> backslash"
    and "\<forall>i < n. inp ! i \<noteq> e \<and> inp ! i \<noteq> backslash"
  shows "idx (advanceTo_loop inp e sc) = n"
  using assms
proof (induction "n - idx sc" arbitrary: sc)
  case 0
  then have "idx sc = n" by simp
  with 0 have "ch sc = Some e" by (simp add: synced_def charAt_def)
  with \<open>idx sc = n\<close> show ?case by (simp add: advanceTo_loop_stop)
next
  case (Suc d)
  then have lt: "idx sc < n" by simp
  with Suc.prems have c: "ch sc = Some (inp ! idx sc)" "inp ! idx sc \<noteq> e"
    by (simp_all add: synced_def charAt_def)
  have nb: "ch (advance_body inp sc) \<noteq> Some backslash"
  proof (cases "Suc (idx sc) = n")
    case True
    with Suc.prems show ?thesis by (simp add: charAt_def)
  next
    case False
    with lt have "Suc (idx sc) < n" by simp
    with Suc.prems show ?thesis by (simp add: charAt_def)
  qed
  then have a: "advance_n inp 1 sc = advance_body inp sc"
    by (simp add: advance_n.simps(2))
  have "idx (advanceTo_loop inp e (advance_body inp sc)) = n"
  proof (rule Suc.hyps(1))
    show "d = n - idx (advance_body inp sc)" using Suc.hyps(2) by simp
    show "synced inp (advance_body inp sc)" using Suc.prems(1) by (rule advance_body_synced)
    show "idx (advance_body inp sc) \<le> n" using lt by simp
  qed (use Suc.prems in simp_all)
  with c a show ?case by (simp add: advanceTo_loop_go)
qed


lemma scanned_Suc: "scanned inp (Suc n) = scanned inp n @ esc_of (charAt inp n)"
  by (simp add: scanned_def)

lemma scanned_plain:
  "n \<le> length inp \<Longrightarrow> backslash \<notin> set (take n inp)
     \<Longrightarrow> scanned inp n = concat (map (\<lambda>c. [backslash, c]) (take n inp))"
proof (induction n)
  case 0
  then show ?case by (simp add: scanned_def)
next
  case (Suc n)
  then have "n < length inp" by simp
  then have t: "take (Suc n) inp = take n inp @ [inp ! n]"
    by (rule take_Suc_conv_app_nth)
  with Suc.prems have "backslash \<notin> set (take n inp)" "inp ! n \<noteq> backslash"
    by auto
  with Suc.IH \<open>n < length inp\<close> t show ?case
    by (simp add: scanned_Suc esc_of_def charAt_def ch_str_def)
qed

lemma advanceTo_plain:
  assumes "e \<in> set inp" and "e \<noteq> backslash"
    and "backslash \<notin> set (takeWhile (\<lambda>c. c \<noteq> e) inp)"
  shows "tok_len (advanceTo inp e) = Suc (length (takeWhile (\<lambda>c. c \<noteq> e) inp))"
proof -
  let ?n = "length (takeWhile (\<lambda>c. c \<noteq> e) inp)"
  let ?sc = "\<lparr>ch = charAt inp 0, idx = 0, tok_len = 1, tok_val = [], tok_esc = []\<rparr>"
  have "takeWhile (\<lambda>c. c \<noteq> e) inp \<noteq> inp"
    using assms(1) by (metis set_takeWhileD)
  then have lt: "?n < length inp"
    by (metis length_takeWhile_le le_neq_implies_less takeWhile_eq_take take_all order_refl)
  then have at: "inp ! ?n = e"
    using nth_length_takeWhile [of "\<lambda>c. c \<noteq> e" inp] by simp
  have before: "\<forall>i < ?n. inp ! i \<noteq> e \<and> inp ! i \<noteq> backslash"
  proof (intro allI impI)
    fix i assume i: "i < ?n"
    then have "takeWhile (\<lambda>c. c \<noteq> e) inp ! i = inp ! i"
      by (rule takeWhile_nth)
    moreover from i have "takeWhile (\<lambda>c. c \<noteq> e) inp ! i \<in> set (takeWhile (\<lambda>c. c \<noteq> e) inp)"
      by (rule nth_mem)
    ultimately show "inp ! i \<noteq> e \<and> inp ! i \<noteq> backslash"
      using assms(3) by (metis set_takeWhileD)
  qed
  have "synced inp ?sc"
    by (simp add: synced_def scanned_def)
  then have "idx (advanceTo_loop inp e ?sc) = ?n"
    using lt at assms(2) before by (intro advanceTo_loop_plain) simp_all
  moreover have "tok_len (advanceTo inp e) = Suc (idx (advanceTo inp e))"
    using advanceTo_synced [of inp e] by (simp add: synced_def)
  ultimately show ?thesis
    by (simp add: advanceTo_def)
qed

lemma advance_n_pending:
  assumes "idx sc = i" and "0 < k" and "pending inp i = k \<or> (pending inp i = 0 \<and> k = 1)"
  shows "pending inp (idx (advance_n inp k sc)) = 0
    \<and> (\<forall>j. i < j \<and> j < idx (advance_n inp k sc) \<longrightarrow> 0 < pending inp j)"
  using assms
proof (induction inp k sc arbitrary: i rule: advance_n.induct)
  case (1 inp sc)
  then show ?case by simp
next
  case (2 inp k sc)
  let ?sc = "advance_body inp sc"
  show ?case
  proof (cases "ch ?sc = Some backslash")
    case True
    then have b: "charAt inp (Suc i) = Some backslash"
      using "2.prems"(1) by simp
    with "2.prems" have p: "pending inp (Suc i) = Suc (Suc k)"
      by auto
    have "pending inp (idx (advance_n inp (Suc (Suc k)) ?sc)) = 0
      \<and> (\<forall>j. Suc i < j \<and> j < idx (advance_n inp (Suc (Suc k)) ?sc) \<longrightarrow> 0 < pending inp j)"
      using True "2.prems"(1) p by (intro "2.IH"(1)) simp_all
    moreover have "advance_n inp (Suc k) sc = advance_n inp (Suc (Suc k)) ?sc"
      using True by (simp add: advance_n.simps(2))
    ultimately show ?thesis
      using p by (metis Suc_lessI zero_less_Suc)
  next
    case False
    then have b: "charAt inp (Suc i) \<noteq> Some backslash"
      using "2.prems"(1) by simp
    with "2.prems" have p: "pending inp (Suc i) = k"
      by auto
    have e: "advance_n inp (Suc k) sc = advance_n inp k ?sc"
      using False by (simp add: advance_n.simps(2))
    show ?thesis
    proof (cases k)
      case 0
      with e p "2.prems"(1) show ?thesis by auto
    next
      case (Suc k')
      have "pending inp (idx (advance_n inp k ?sc)) = 0
        \<and> (\<forall>j. Suc i < j \<and> j < idx (advance_n inp k ?sc) \<longrightarrow> 0 < pending inp j)"
        using False "2.prems"(1) p Suc by (intro "2.IH"(2)) simp_all
      with e p Suc show ?thesis
        by (metis Suc_lessI zero_less_Suc)
    qed
  qed
qed

lemma advanceTo_loop_end:
  assumes "synced inp sc" and "pending inp (idx sc) = 0"
    and "\<forall>j < idx sc. \<not> span_end inp e j"
  shows "span_end inp e (idx (advanceTo_loop inp e sc))
    \<and> (\<forall>j < idx (advanceTo_loop inp e sc). \<not> span_end inp e j)"
  using assms
proof (induction inp e sc rule: advanceTo_loop.induct)
  case (1 inp endChar sc)
  show ?case
  proof (cases "ch sc \<noteq> None \<and> ch sc \<noteq> Some endChar")
    case False
    then have "advanceTo_loop inp endChar sc = sc"
      by (intro advanceTo_loop_stop) auto
    moreover from False "1.prems"(1,2) have "span_end inp endChar (idx sc)"
      by (auto simp: span_end_def synced_def)
    ultimately show ?thesis
      using "1.prems"(3) by simp
  next
    case True
    let ?sc = "advance_n inp 1 sc"
    from True "1.prems"(1) have ns: "\<not> span_end inp endChar (idx sc)"
      by (auto simp: span_end_def synced_def)
    have p: "pending inp (idx ?sc) = 0
      \<and> (\<forall>j. idx sc < j \<and> j < idx ?sc \<longrightarrow> 0 < pending inp j)"
      using "1.prems"(2) by (intro advance_n_pending) simp_all
    have "\<forall>j < idx ?sc. \<not> span_end inp endChar j"
    proof (intro allI impI)
      fix j assume "j < idx ?sc"
      then consider "j < idx sc" | "j = idx sc" | "idx sc < j \<and> j < idx ?sc"
        by linarith
      then show "\<not> span_end inp endChar j"
      proof cases
        case 1
        with "1.prems"(3) show ?thesis by simp
      next
        case 2
        with ns show ?thesis by simp
      next
        case 3
        with p have "0 < pending inp j" by blast
        then show ?thesis by (simp add: span_end_def)
      qed
    qed
    moreover have "synced inp ?sc"
      using "1.prems"(1) by (rule advance_n_synced)
    ultimately have "span_end inp endChar (idx (advanceTo_loop inp endChar ?sc))
      \<and> (\<forall>j < idx (advanceTo_loop inp endChar ?sc). \<not> span_end inp endChar j)"
      using True p by (intro "1.IH") simp_all
    with True show ?thesis
      by (simp add: advanceTo_loop_go)
  qed
qed

lemma advanceTo_end:
  "span_end inp e (tok_len (advanceTo inp e) - 1)
   \<and> (\<forall>j < tok_len (advanceTo inp e) - 1. \<not> span_end inp e j)"
proof -
  let ?sc = "\<lparr>ch = charAt inp 0, idx = 0, tok_len = 1, tok_val = [], tok_esc = []\<rparr>"
  have "synced inp ?sc"
    by (simp add: synced_def scanned_def)
  then have "span_end inp e (idx (advanceTo_loop inp e ?sc))
    \<and> (\<forall>j < idx (advanceTo_loop inp e ?sc). \<not> span_end inp e j)"
    by (intro advanceTo_loop_end) simp_all
  moreover have "tok_len (advanceTo inp e) = Suc (idx (advanceTo inp e))"
    using advanceTo_synced [of inp e] by (simp add: synced_def)
  ultimately show ?thesis
    by (simp add: advanceTo_def)
qed


lemma scanned_filter:
  "n \<le> length inp
     \<Longrightarrow> scanned inp n = concat (map (\<lambda>c. [backslash, c]) (filter (\<lambda>c. c \<noteq> backslash) (take n inp)))"
proof (induction n)
  case 0
  then show ?case by (simp add: scanned_def)
next
  case (Suc n)
  then have "n < length inp" by simp
  then have t: "take (Suc n) inp = take n inp @ [inp ! n]"
    by (rule take_Suc_conv_app_nth)
  with Suc.IH \<open>n < length inp\<close> show ?case
    by (simp add: scanned_Suc esc_of_def charAt_def ch_str_def)
qed

lemma pending_regular:
  assumes "inp ! 0 \<noteq> backslash"
    and "\<forall>i < m. \<not> (inp ! i = backslash \<and> inp ! Suc i = backslash)"
    and "m < length inp" and "i \<le> m"
  shows "pending inp i
    = (if inp ! i = backslash then 2 else if 0 < i \<and> inp ! (i - 1) = backslash then 1 else 0)"
  using assms(4)
proof (induction i)
  case 0
  with assms(1) show ?case by simp
next
  case (Suc i)
  then have i: "i < m" "Suc i < length inp" "i < length inp"
    using assms(3) by simp_all
  with assms(2) have na: "\<not> (inp ! i = backslash \<and> inp ! Suc i = backslash)"
    by simp
  from Suc i have IH: "pending inp i
    = (if inp ! i = backslash then 2 else if 0 < i \<and> inp ! (i - 1) = backslash then 1 else 0)"
    by simp
  show ?case
  proof (cases "inp ! Suc i = backslash")
    case True
    with na have "inp ! i \<noteq> backslash" by simp
    with IH have "pending inp i - 1 = 0" by simp
    with True i show ?thesis by (simp add: charAt_def)
  next
    case False
    with IH i show ?thesis by (simp add: charAt_def)
  qed
qed

lemma span_end_regular:
  assumes "inp ! 0 \<noteq> backslash"
    and "\<forall>i < m. \<not> (inp ! i = backslash \<and> inp ! Suc i = backslash)"
    and "m < length inp" and "j \<le> m" and "e \<noteq> backslash"
  shows "span_end inp e j = (inp ! j = e \<and> (j = 0 \<or> inp ! (j - 1) \<noteq> backslash))"
proof -
  from assms have "pending inp j
    = (if inp ! j = backslash then 2 else if 0 < j \<and> inp ! (j - 1) = backslash then 1 else 0)"
    by (intro pending_regular [of inp m]) simp_all
  moreover from assms have "charAt inp j = Some (inp ! j)"
    by (simp add: charAt_def)
  ultimately show ?thesis
    using assms(5) by (auto simp: span_end_def)
qed

lemma span_end_unique:
  assumes "span_end inp e n" and "\<forall>j < n. \<not> span_end inp e j"
    and "span_end inp e m" and "\<forall>j < m. \<not> span_end inp e j"
  shows "n = m"
  using assms by (meson linorder_neqE_nat)


text \<open>
  Claim C5, as amended. Where the input starts with a quote that occurs again after it,
  the quoted rule returns a quoted node whose value is \<open>tok.esc\<close>: for the characters
  scanned, in order, nothing for a backslash and a backslash followed by the character
  for any other (\<open>scanned r n\<close>, with \<open>n\<close> the number of characters scanned); it
  consumes the opening quote, these \<open>n\<close> characters and one more. For a span that
  does not start with a backslash and holds no two adjacent backslashes, the scan ends at
  the first quote that no backslash immediately precedes, and the value is the content
  up to there with its backslashes removed and a backslash in front of every character
  left; without any backslash, that is the content up to the next quote. In general the
  scan ends at the first position that holds the quote, or lies past the end of the
  input, and at which no step is forced, a backslash found as the next character forcing
  two further steps.
\<close>

theorem quoted_rule_value:
  "input p = q # r \<and> (q = dquote \<or> q = squote) \<and> q \<in> set r \<longrightarrow>
     (\<exists>n. quoted_rule p
            = (Some (mk_node ty_quoted (scanned r n)),
               p\<lparr>parsed := parsed p @ [q], input := drop (Suc n) r\<rparr>)
          \<and> span_end r q n \<and> (\<forall>j < n. \<not> span_end r q j)
          \<and> (\<forall>m. m < length r \<and> r ! m = q \<and> (m = 0 \<or> r ! (m - 1) \<noteq> backslash)
                 \<and> (\<forall>j < m. \<not> (r ! j = q \<and> (j = 0 \<or> r ! (j - 1) \<noteq> backslash)))
                 \<and> r ! 0 \<noteq> backslash
                 \<and> (\<forall>i < m. \<not> (r ! i = backslash \<and> r ! Suc i = backslash))
               \<longrightarrow> n = m
                 \<and> scanned r n
                   = concat (map (\<lambda>c. [backslash, c]) (filter (\<lambda>c. c \<noteq> backslash) (take m r))))
          \<and> (backslash \<notin> set (takeWhile (\<lambda>c. c \<noteq> q) r) \<longrightarrow>
               n = length (takeWhile (\<lambda>c. c \<noteq> q) r)
               \<and> scanned r n = concat (map (\<lambda>c. [backslash, c]) (takeWhile (\<lambda>c. c \<noteq> q) r))))"
proof
  assume a: "input p = q # r \<and> (q = dquote \<or> q = squote) \<and> q \<in> set r"
  let ?tok = "advanceTo r q"
  let ?n = "tok_len ?tok - 1"
  let ?w = "takeWhile (\<lambda>c. c \<noteq> q) r"
  from a have qb: "q \<noteq> backslash" by auto
  have len: "tok_len ?tok = Suc ?n"
    using advanceTo_synced [of r q] by (simp add: synced_def)
  from a have "quoted_rule p
      = (Some (mk_node ty_quoted (tok_esc ?tok)),
         p\<lparr>parsed := parsed p @ [q], input := drop (tok_len ?tok) r\<rparr>)"
    by (auto simp: quoted_rule_def re_quote_Cons updatePosition_def consume_def Let_def)
  then have 1: "quoted_rule p
      = (Some (mk_node ty_quoted (scanned r ?n)),
         p\<lparr>parsed := parsed p @ [q], input := drop (Suc ?n) r\<rparr>)"
    using len by (simp add: advanceTo_esc)
  have 2: "?n = length ?w \<and> scanned r ?n = concat (map (\<lambda>c. [backslash, c]) ?w)"
    if nb: "backslash \<notin> set ?w"
  proof -
    from a qb nb have n: "?n = length ?w"
      by (simp add: advanceTo_plain)
    have "take (length ?w) r = ?w"
      by (simp add: takeWhile_eq_take [symmetric])
    with nb have "scanned r (length ?w) = concat (map (\<lambda>c. [backslash, c]) ?w)"
      using scanned_plain [of "length ?w" r] by (simp add: length_takeWhile_le)
    with n show ?thesis by simp
  qed
  have 3: "span_end r q ?n" "\<forall>j < ?n. \<not> span_end r q j"
    using advanceTo_end [of r q] by simp_all
  have 4: "?n = m
      \<and> scanned r ?n
        = concat (map (\<lambda>c. [backslash, c]) (filter (\<lambda>c. c \<noteq> backslash) (take m r)))"
    if h: "m < length r \<and> r ! m = q \<and> (m = 0 \<or> r ! (m - 1) \<noteq> backslash)
         \<and> (\<forall>j < m. \<not> (r ! j = q \<and> (j = 0 \<or> r ! (j - 1) \<noteq> backslash)))
         \<and> r ! 0 \<noteq> backslash
         \<and> (\<forall>i < m. \<not> (r ! i = backslash \<and> r ! Suc i = backslash))" for m
  proof -
    have e: "span_end r q j = (r ! j = q \<and> (j = 0 \<or> r ! (j - 1) \<noteq> backslash))"
      if "j \<le> m" for j
      using h that qb by (intro span_end_regular [of r m]) simp_all
    from e [of m] h have "span_end r q m" by simp
    moreover from e h have "\<forall>j < m. \<not> span_end r q j" by simp
    ultimately have "?n = m"
      using 3 by (intro span_end_unique [of r q]) simp_all
    moreover from h have "scanned r m
        = concat (map (\<lambda>c. [backslash, c]) (filter (\<lambda>c. c \<noteq> backslash) (take m r)))"
      by (intro scanned_filter) simp
    ultimately show ?thesis by simp
  qed
  show "\<exists>n. quoted_rule p
            = (Some (mk_node ty_quoted (scanned r n)),
               p\<lparr>parsed := parsed p @ [q], input := drop (Suc n) r\<rparr>)
          \<and> span_end r q n \<and> (\<forall>j < n. \<not> span_end r q j)
          \<and> (\<forall>m. m < length r \<and> r ! m = q \<and> (m = 0 \<or> r ! (m - 1) \<noteq> backslash)
                 \<and> (\<forall>j < m. \<not> (r ! j = q \<and> (j = 0 \<or> r ! (j - 1) \<noteq> backslash)))
                 \<and> r ! 0 \<noteq> backslash
                 \<and> (\<forall>i < m. \<not> (r ! i = backslash \<and> r ! Suc i = backslash))
               \<longrightarrow> n = m
                 \<and> scanned r n
                   = concat (map (\<lambda>c. [backslash, c]) (filter (\<lambda>c. c \<noteq> backslash) (take m r))))
          \<and> (backslash \<notin> set (takeWhile (\<lambda>c. c \<noteq> q) r) \<longrightarrow>
               n = length (takeWhile (\<lambda>c. c \<noteq> q) r)
               \<and> scanned r n = concat (map (\<lambda>c. [backslash, c]) (takeWhile (\<lambda>c. c \<noteq> q) r)))"
    using 1 2 3 4 by (intro exI [of _ ?n]) blast
qed

theorem quoted_rule_value_witness:
  "dquote \<in> set (CHR ''a'' # backslash # dquote # CHR ''b'' # dquote # ''c'')
   \<and> quoted_rule (init_parser no_options (dquote # CHR ''a'' # backslash # dquote # CHR ''b'' # dquote # ''c''))
     = (Some (mk_node ty_quoted [backslash, CHR ''a'', backslash, dquote, backslash, CHR ''b'']),
        (init_parser no_options (dquote # CHR ''a'' # backslash # dquote # CHR ''b'' # dquote # ''c''))
          \<lparr>parsed := [dquote], input := ''c''\<rparr>)
   \<and> quoted_rule (init_parser no_options (dquote # ''ab'' @ dquote # ''c''))
     = (Some (mk_node ty_quoted [backslash, CHR ''a'', backslash, CHR ''b'']),
        (init_parser no_options (dquote # ''ab'' @ dquote # ''c''))\<lparr>parsed := [dquote], input := ''c''\<rparr>)"
proof -
  let ?r = "CHR ''a'' # backslash # dquote # CHR ''b'' # dquote # ''c''"
  let ?p = "init_parser no_options (dquote # ?r)"
  obtain n where q: "quoted_rule ?p
      = (Some (mk_node ty_quoted (scanned ?r n)), ?p\<lparr>parsed := parsed ?p @ [dquote], input := drop (Suc n) ?r\<rparr>)"
    and r: "\<forall>m. m < length ?r \<and> ?r ! m = dquote \<and> (m = 0 \<or> ?r ! (m - 1) \<noteq> backslash)
                 \<and> (\<forall>j < m. \<not> (?r ! j = dquote \<and> (j = 0 \<or> ?r ! (j - 1) \<noteq> backslash)))
                 \<and> ?r ! 0 \<noteq> backslash
                 \<and> (\<forall>i < m. \<not> (?r ! i = backslash \<and> ?r ! Suc i = backslash))
               \<longrightarrow> n = m
                 \<and> scanned ?r n
                   = concat (map (\<lambda>c. [backslash, c]) (filter (\<lambda>c. c \<noteq> backslash) (take m ?r)))"
    using quoted_rule_value [of ?p dquote ?r] by (auto simp: init_parser_def)
  have "4 < length ?r \<and> ?r ! 4 = dquote \<and> (4 = (0::nat) \<or> ?r ! (4 - 1) \<noteq> backslash)
      \<and> (\<forall>j < 4. \<not> (?r ! j = dquote \<and> (j = 0 \<or> ?r ! (j - 1) \<noteq> backslash)))
      \<and> ?r ! 0 \<noteq> backslash
      \<and> (\<forall>i < 4. \<not> (?r ! i = backslash \<and> ?r ! Suc i = backslash))"
    by (simp add: numeral_eq_Suc less_Suc_eq)
  with r have "n = 4
      \<and> scanned ?r n = concat (map (\<lambda>c. [backslash, c]) (filter (\<lambda>c. c \<noteq> backslash) (take 4 ?r)))"
    by blast
  then have n: "n = 4"
    and s: "scanned ?r n = concat (map (\<lambda>c. [backslash, c]) (filter (\<lambda>c. c \<noteq> backslash) (take 4 ?r)))"
    by blast+
  have 1: "quoted_rule ?p
     = (Some (mk_node ty_quoted [backslash, CHR ''a'', backslash, dquote, backslash, CHR ''b'']),
        ?p\<lparr>parsed := [dquote], input := ''c''\<rparr>)"
    using q n s by (simp add: init_parser_def numeral_eq_Suc)
  have 2: "quoted_rule (init_parser no_options (dquote # ''ab'' @ dquote # ''c''))
     = (Some (mk_node ty_quoted [backslash, CHR ''a'', backslash, CHR ''b'']),
        (init_parser no_options (dquote # ''ab'' @ dquote # ''c''))\<lparr>parsed := [dquote], input := ''c''\<rparr>)"
    using quoted_rule_value [of "init_parser no_options (dquote # ''ab'' @ dquote # ''c'')" dquote
        "''ab'' @ dquote # ''c''"]
    by (auto simp: init_parser_def)
  from 1 2 show ?thesis by simp
qed

text \<open>
  On \<open>"a"\<close> the unescaped content \<open>a\<close> is what \<open>tok.val\<close> holds, and the value of
  the node is a backslash followed by \<open>a\<close>.
\<close>

theorem quoted_value_counterexample:
  "fst (quoted_rule (init_parser no_options (dquote # ''a'' @ [dquote])))
     = Some (mk_node ty_quoted [backslash, CHR ''a''])
   \<and> val (mk_node ty_quoted [backslash, CHR ''a'']) \<noteq> ''a''
   \<and> tok_val (advanceTo (''a'' @ [dquote]) dquote) = ''a''
   \<and> input (snd (quoted_rule (init_parser no_options (dquote # ''a'' @ [dquote])))) = []"
  by (intro conjI; code_simp)

end
